theory Spec2Isabelle
  imports Complex_Main "HOL-Library.Word" "HOL-Library.Monad_Syntax"
begin

unbundle bit_operations_syntax

section \<open>Numbers\<close>

text \<open>
  JavaScript numbers are modelled as exact reals: rounding of the floating-point
  operations is abstracted away. A sample that comes from a typed-array read outside
  the array is \<open>undefined\<close> in the source and turns every arithmetic result that uses
  it into NaN; such a value is \<open>None\<close> in the model, a proper sample is \<open>Some x\<close>.
  Integers that go through \<open>| 0\<close> or \<open>>>\<close> are reduced to 32-bit two's complement
  by \<open>to_int32\<close>.
\<close>

definition to_int32 :: "int \<Rightarrow> int" where
  "to_int32 x = (x + 2 ^ 31) mod 2 ^ 32 - 2 ^ 31"

definition clamp :: "real \<Rightarrow> real \<Rightarrow> real \<Rightarrow> real" where
  "clamp v a b = max a (min b v)"

definition clampInt :: "int \<Rightarrow> int \<Rightarrow> int \<Rightarrow> int" where
  "clampInt v a b = to_int32 (max a (min b (to_int32 v)))"

section \<open>The render engine (worklets/granular-processor.js)\<close>

subsection \<open>RingRNG: xorshift32\<close>

definition rng_step :: "32 word \<Rightarrow> 32 word" where
  "rng_step s =
     (let x1 = s XOR push_bit 13 s;
          x2 = x1 XOR drop_bit 17 x1;
          x3 = x2 XOR push_bit 5 x2
      in x3)"

text \<open>\<open>next()\<close> returns the new state and the drawn number in \<open>[0, 1)\<close>.\<close>

definition rng_next :: "32 word \<Rightarrow> 32 word \<times> real" where
  "rng_next s =
     (let s' = rng_step s
      in (s', real (unat (s' AND 0x7fffffff)) / 0x80000000))"

definition rng_norm :: "32 word \<Rightarrow> 32 word \<times> real" where
  "rng_norm s = (let (s', u) = rng_next s in (s', u * 2 - 1))"

subsection \<open>Window, interpolated read, filter coefficient\<close>

definition hann :: "int \<Rightarrow> int \<Rightarrow> real" where
  "hann n i = 0.5 * (1 - cos (2 * pi * real_of_int i / real_of_int (n - 1)))"

definition buf_get :: "real list \<Rightarrow> int \<Rightarrow> real option" where
  "buf_get buf i = (if 0 \<le> i \<and> i < int (length buf) then Some (buf ! nat i) else None)"

definition readInterp :: "real list \<Rightarrow> real \<Rightarrow> real option" where
  "readInterp buf pos =
     (let i = \<lfloor>pos\<rfloor>;
          frac = pos - real_of_int i;
          i1 = (if i + 1 \<ge> int (length buf) then 0 else i + 1)
      in do { a \<leftarrow> buf_get buf i;
              b \<leftarrow> buf_get buf i1;
              Some (a * (1 - frac) + b * frac) })"

definition onePoleAlpha :: "real \<Rightarrow> real \<Rightarrow> real" where
  "onePoleAlpha cutHz sr = 1 - exp (- 2 * pi * max 1 cutHz / max 1 sr)"

subsection \<open>Voices, grains and the processor state\<close>

record grain =
  posL :: real
  posR :: real
  glength :: int
  gi :: int
  grate :: real
  ggain :: real

record voice =
  vid :: nat
  vrate :: real
  vgain :: real
  von :: bool
  vtime :: real
  nextGrainAt :: real
  grains :: "grain list"

record eq_state =
  lp :: "real option"
  hp :: "real option"

text \<open>
  \<open>voices\<close> is the source's \<open>Map\<close> from id to voice, kept as the list of its values in
  insertion order (the order in which \<open>for ... of voices.values()\<close> visits them); the
  key of an entry is its \<open>vid\<close>.
\<close>

record processor =
  sampleRateSrc :: real
  bufL :: "real list"
  bufR :: "real list"
  plength :: int
  voices :: "voice list"
  maxVoices :: nat
  rng :: "32 word"
  formantTilt :: real
  brightness :: real
  eqStateL :: eq_state
  eqStateR :: eq_state

definition new_voice :: "nat \<Rightarrow> real \<Rightarrow> real \<Rightarrow> voice" where
  "new_voice i r g =
     \<lparr>vid = i, vrate = r, vgain = g, von = True, vtime = 0, nextGrainAt = 0, grains = []\<rparr>"

definition new_grain :: "real \<Rightarrow> real \<Rightarrow> int \<Rightarrow> real \<Rightarrow> real \<Rightarrow> grain" where
  "new_grain sL sR n r g = \<lparr>posL = sL, posR = sR, glength = n, gi = 0, grate = r, ggain = g\<rparr>"

definition constructor :: processor where
  "constructor =
     \<lparr>sampleRateSrc = 44100, bufL = [], bufR = [], plength = 0, voices = [],
      maxVoices = 32, rng = 123456, formantTilt = 0, brightness = 0,
      eqStateL = \<lparr>lp = Some 0, hp = Some 0\<rparr>, eqStateR = \<lparr>lp = Some 0, hp = Some 0\<rparr>\<rparr>"

subsection \<open>Messages\<close>

text \<open>
  A payload field that may be missing is an option. \<open>Other\<close> stands for a message with
  no type or an unknown one.
\<close>

datatype message =
    LoadBuffer "real option" "real list list"
  | NoteOn "nat option" "real option" "real option"
  | NoteOff "nat option"
  | SetParams "real option" "real option"
  | Other

fun map_set :: "voice list \<Rightarrow> voice \<Rightarrow> voice list" where
  "map_set [] v = [v]"
| "map_set (w # ws) v = (if vid w = vid v then v # ws else w # map_set ws v)"

definition release :: "nat \<Rightarrow> voice \<Rightarrow> voice" where
  "release i v = (if vid v = i then v\<lparr>von := False\<rparr> else v)"

fun handleMessage :: "processor \<Rightarrow> message \<Rightarrow> processor" where
  "handleMessage p (LoadBuffer sr chans) =
     (case chans of
        [] \<Rightarrow> p\<lparr>bufL := [], bufR := [], plength := 0\<rparr>
      | L # rest \<Rightarrow>
          (let R = (case rest of [] \<Rightarrow> L | R' # _ \<Rightarrow> R')
           in p\<lparr>bufL := L, bufR := R,
                plength := to_int32 (int (min (length L) (length R))),
                sampleRateSrc := (case sr of None \<Rightarrow> 44100
                                  | Some s \<Rightarrow> if s = 0 then 44100 else s)\<rparr>))"
| "handleMessage p (NoteOn i r g) =
     (if length (voices p) \<ge> maxVoices p then p
      else case i of
        None \<Rightarrow> p
      | Some k \<Rightarrow>
          p\<lparr>voices := map_set (voices p)
               (new_voice k (case r of None \<Rightarrow> 1 | Some x \<Rightarrow> x)
                            (case g of None \<Rightarrow> 0.9 | Some x \<Rightarrow> x))\<rparr>)"
| "handleMessage p (NoteOff i) =
     (case i of None \<Rightarrow> p | Some k \<Rightarrow> p\<lparr>voices := map (release k) (voices p)\<rparr>)"
| "handleMessage p (SetParams t b) =
     (let p1 = (case t of None \<Rightarrow> p | Some x \<Rightarrow> p\<lparr>formantTilt := clamp x (-1) 1\<rparr>)
      in case b of None \<Rightarrow> p1 | Some y \<Rightarrow> p1\<lparr>brightness := clamp y (-1) 1\<rparr>)"
| "handleMessage p Other = p"

subsection \<open>Grain scheduling\<close>

definition grainFrames :: "real \<Rightarrow> real \<Rightarrow> int" where
  "grainFrames grainSizeSec sr = max 16 \<lfloor>grainSizeSec * sr\<rfloor>"

definition intervalSec :: "real \<Rightarrow> real \<Rightarrow> real" where
  "intervalSec grainSizeSec overlap = max 0.001 (grainSizeSec * (1 - overlap))"

text \<open>
  \<open>grain_start\<close> is the start frame that \<open>scheduleGrainForVoice\<close> computes from the two
  random draws \<open>u\<close> (of \<open>next()\<close>) and \<open>w\<close> (of \<open>norm()\<close>).
\<close>

definition grain_start :: "int \<Rightarrow> real \<Rightarrow> real \<Rightarrow> real \<Rightarrow> real \<Rightarrow> real \<Rightarrow> int" where
  "grain_start len sr grainSizeSec jitterSec u w =
     (let gf = grainFrames grainSizeSec sr;
          startFrame = \<lfloor>u * real_of_int (len - gf - 1)\<rfloor>;
          jitterFrames = \<lfloor>jitterSec * sr * w\<rfloor>
      in clampInt (startFrame + jitterFrames) 0 (len - gf - 1))"

definition scheduleGrainForVoice ::
    "processor \<Rightarrow> voice \<Rightarrow> real \<Rightarrow> real \<Rightarrow> real \<Rightarrow> processor \<times> voice" where
  "scheduleGrainForVoice p v grainSizeSec overlap jitterSec =
     (if plength p \<le> 0 then (p, v)
      else
        let sr = sampleRateSrc p;
            (s1, u) = rng_next (rng p);
            (s2, w) = rng_norm s1;
            sL = real_of_int (grain_start (plength p) sr grainSizeSec jitterSec u w);
            g = new_grain sL sL (grainFrames grainSizeSec sr) (vrate v) (vgain v)
        in (p\<lparr>rng := s2\<rparr>,
            v\<lparr>grains := grains v @ [g],
              nextGrainAt := nextGrainAt v + intervalSec grainSizeSec overlap\<rparr>))"

text \<open>
  The catch-up loop \<open>while (v.nextGrainAt <= v.time + 1e-6)\<close>. With no segment
  \<open>scheduleGrainForVoice\<close> returns at once and the source's loop would never end:
  that is the result \<open>None\<close>.
\<close>

function schedule_loop ::
    "processor \<Rightarrow> voice \<Rightarrow> real \<Rightarrow> real \<Rightarrow> real \<Rightarrow> (processor \<times> voice) option" where
  "schedule_loop p v grainSizeSec overlap jitterSec =
     (if nextGrainAt v \<le> vtime v + 1 / 1000000 then
        (if plength p \<le> 0 then None
         else schedule_loop
                (fst (scheduleGrainForVoice p v grainSizeSec overlap jitterSec))
                (snd (scheduleGrainForVoice p v grainSizeSec overlap jitterSec))
                grainSizeSec overlap jitterSec)
      else Some (p, v))"
  by pat_completeness auto

termination schedule_loop
proof (relation "measure (\<lambda>(p, v, gs, ov, js).
         nat (\<lfloor>(vtime v + 1 / 1000000 - nextGrainAt v) * 1000\<rfloor> + 1))", goal_cases)
  case 1
  show ?case by simp
next
  case (2 p v gs ov js)
  define x where "x = (vtime v + 1 / 1000000 - nextGrainAt v) * 1000"
  define v' where "v' = snd (scheduleGrainForVoice p v gs ov js)"
  define y where "y = (vtime v' + 1 / 1000000 - nextGrainAt v') * 1000"
  have t: "vtime v' = vtime v"
    using 2(2) by (simp add: v'_def scheduleGrainForVoice_def Let_def split: prod.splits)
  have n: "nextGrainAt v' = nextGrainAt v + intervalSec gs ov"
    using 2(2) by (simp add: v'_def scheduleGrainForVoice_def Let_def split: prod.splits)
  have i: "intervalSec gs ov \<ge> 1 / 1000" by (simp add: intervalSec_def)
  have "y \<le> x - 1"
    using t n i by (simp add: x_def y_def)
  then have "\<lfloor>y\<rfloor> \<le> \<lfloor>x - 1\<rfloor>"
    by (rule floor_mono)
  also have "\<lfloor>x - 1\<rfloor> = \<lfloor>x\<rfloor> - 1"
    by (rule floor_diff_one)
  finally have le: "\<lfloor>y\<rfloor> + 1 \<le> \<lfloor>x\<rfloor>"
    by simp
  have "0 \<le> x" using 2(1) by (simp add: x_def)
  then have "0 \<le> \<lfloor>x\<rfloor>" by simp
  with le have "nat (\<lfloor>y\<rfloor> + 1) < nat (\<lfloor>x\<rfloor> + 1)" by linarith
  then show ?case
    unfolding x_def y_def v'_def by simp
qed

declare schedule_loop.simps [simp del]

definition schedule_voice ::
    "processor \<Rightarrow> voice \<Rightarrow> real \<Rightarrow> real \<Rightarrow> real \<Rightarrow> (processor \<times> voice) option" where
  "schedule_voice p v grainSizeSec overlap jitterSec =
     (if nextGrainAt v \<le> vtime v + 1 / 1000000 then
        schedule_loop p (if vtime v = 0 then v\<lparr>nextGrainAt := 0\<rparr> else v)
          grainSizeSec overlap jitterSec
      else Some (p, v))"

text \<open>Step 1 of \<open>process\<close>: every voice of the map in turn, sharing the generator.\<close>

fun schedule_all ::
    "processor \<Rightarrow> voice list \<Rightarrow> real \<Rightarrow> real \<Rightarrow> real \<Rightarrow> (processor \<times> voice list) option" where
  "schedule_all p [] grainSizeSec overlap jitterSec = Some (p, [])"
| "schedule_all p (v # vs) grainSizeSec overlap jitterSec =
     (case schedule_voice p v grainSizeSec overlap jitterSec of
        None \<Rightarrow> None
      | Some (p1, v1) \<Rightarrow>
          (case schedule_all p1 vs grainSizeSec overlap jitterSec of
             None \<Rightarrow> None
           | Some (p2, vs2) \<Rightarrow> Some (p2, v1 # vs2)))"

subsection \<open>The timbre shaper\<close>

definition applyEQ ::
    "processor \<Rightarrow> real option \<Rightarrow> eq_state \<Rightarrow> real \<Rightarrow> real option \<times> eq_state" where
  "applyEQ p sample state sampleRate =
     (let cutoff = 1200 * 2 powr (formantTilt p / 2);
          alphaLP = onePoleAlpha cutoff sampleRate;
          lp1 = do { s \<leftarrow> sample; l \<leftarrow> lp state; Some (l + alphaLP * (s - l)) };
          alphaHP = onePoleAlpha 200 sampleRate;
          hp1 = do { s \<leftarrow> sample; h \<leftarrow> hp state; Some (h + alphaHP * (s - h)) };
          hpo = do { s \<leftarrow> sample; h \<leftarrow> hp1; Some (s - h) };
          b = brightness p;
          lo = do { l \<leftarrow> lp1; Some (l * (0.5 - 0.5 * b)) };
          hi = do { h \<leftarrow> hpo; Some (h * (0.5 + 0.5 * b)) }
      in (do { x \<leftarrow> lo; y \<leftarrow> hi; Some (x + y) }, \<lparr>lp = lp1, hp = hp1\<rparr>))"

subsection \<open>Rendering one sample\<close>

definition wrap_pos :: "int \<Rightarrow> real \<Rightarrow> real" where
  "wrap_pos len pos = (if pos \<ge> real_of_int len then pos - real_of_int len else pos)"

definition grain_tick ::
    "real list \<Rightarrow> real list \<Rightarrow> int \<Rightarrow> real option \<times> real option \<Rightarrow> grain
       \<Rightarrow> (real option \<times> real option) \<times> grain option" where
  "grain_tick srcL srcR len mix g =
     (let w = hann (glength g) (gi g);
          sL = readInterp srcL (posL g);
          sR = readInterp srcR (posR g);
          mixL = do { m \<leftarrow> fst mix; s \<leftarrow> sL; Some (m + s * w * ggain g) };
          mixR = do { m \<leftarrow> snd mix; s \<leftarrow> sR; Some (m + s * w * ggain g) };
          g1 = g\<lparr>posL := posL g + grate g, posR := posR g + grate g, gi := gi g + 1\<rparr>
      in ((mixL, mixR),
          (if gi g1 \<ge> glength g1 then None
           else Some (g1\<lparr>posL := wrap_pos len (posL g1), posR := wrap_pos len (posR g1)\<rparr>))))"

text \<open>
  The grains of a voice are visited from the last index down to 0; a finished grain
  is spliced out, the others keep their order.
\<close>

fun grains_tick ::
    "real list \<Rightarrow> real list \<Rightarrow> int \<Rightarrow> real option \<times> real option \<Rightarrow> grain list
       \<Rightarrow> (real option \<times> real option) \<times> grain list" where
  "grains_tick srcL srcR len mix [] = (mix, [])"
| "grains_tick srcL srcR len mix (g # gs) =
     (let (mix1, gs1) = grains_tick srcL srcR len mix gs;
          (mix2, g1) = grain_tick srcL srcR len mix1 g
      in (mix2, (case g1 of None \<Rightarrow> gs1 | Some h \<Rightarrow> h # gs1)))"

text \<open>A voice that is released and has no grain left is deleted from the map.\<close>

fun voices_tick ::
    "real list \<Rightarrow> real list \<Rightarrow> int \<Rightarrow> real option \<times> real option \<Rightarrow> voice list
       \<Rightarrow> (real option \<times> real option) \<times> voice list" where
  "voices_tick srcL srcR len mix [] = (mix, [])"
| "voices_tick srcL srcR len mix (v # vs) =
     (let (mix1, gs1) = grains_tick srcL srcR len mix (grains v);
          v1 = v\<lparr>grains := gs1\<rparr>;
          (mix2, vs2) = voices_tick srcL srcR len mix1 vs
      in (mix2, (if \<not> von v1 \<and> grains v1 = [] then vs2 else v1 # vs2)))"

definition sample_tick ::
    "real \<Rightarrow> processor \<Rightarrow> processor \<times> real option \<times> real option" where
  "sample_tick srProc p =
     (let (mix, vs) = voices_tick (bufL p) (bufR p) (plength p) (Some 0, Some 0) (voices p);
          (oL, eL) = applyEQ p (fst mix) (eqStateL p) srProc;
          (oR, eR) = applyEQ p (snd mix) (eqStateR p) srProc
      in (p\<lparr>voices := vs, eqStateL := eL, eqStateR := eR\<rparr>, oL, oR))"

fun render ::
    "nat \<Rightarrow> real \<Rightarrow> processor \<Rightarrow> processor \<times> real option list \<times> real option list" where
  "render 0 srProc p = (p, [], [])"
| "render (Suc n) srProc p =
     (let (p1, oL, oR) = sample_tick srProc p;
          (p2, oLs, oRs) = render n srProc p1
      in (p2, oL # oLs, oR # oRs))"

subsection \<open>One render block\<close>

record block_params =
  grainSize :: real
  overlap :: real
  jitter :: real

record block_result =
  state :: processor
  outL :: "real option list"
  outR :: "real option list"
  ret :: bool

text \<open>
  \<open>process srProc p prm quantum\<close>: \<open>srProc\<close> is the global \<open>sampleRate\<close> of the worklet
  scope, \<open>quantum\<close> the length of the (stereo) output arrays. \<open>None\<close> would be a call
  that does not return.
\<close>

definition process :: "real \<Rightarrow> processor \<Rightarrow> block_params \<Rightarrow> nat \<Rightarrow> block_result option" where
  "process srProc p prm quantum =
     (let grainSizeSec = grainSize prm;
          ov = clamp (overlap prm) 0 0.95;
          jitterSec = clamp (jitter prm) 0 0.02
      in if plength p \<le> 0 \<or> length (bufL p) = 0
         then Some \<lparr>state = p, outL = replicate quantum (Some 0),
                    outR = replicate quantum (Some 0), ret = True\<rparr>
         else
           (case schedule_all p (voices p) grainSizeSec ov jitterSec of
              None \<Rightarrow> None
            | Some (p1, vs1) \<Rightarrow>
                (let dt = real quantum / srProc;
                     (p2, oL, oR) = render quantum srProc (p1\<lparr>voices := vs1\<rparr>)
                 in Some \<lparr>state = p2\<lparr>voices := map (\<lambda>v. v\<lparr>vtime := vtime v + dt\<rparr>) (voices p2)\<rparr>,
                          outL = oL, outR = oR, ret = True\<rparr>)))"

subsection \<open>Runs of the processor\<close>

datatype event = Msg message | Block block_params nat

fun run :: "real \<Rightarrow> processor \<Rightarrow> event list \<Rightarrow> processor option" where
  "run srProc p [] = Some p"
| "run srProc p (Msg m # es) = run srProc (handleMessage p m) es"
| "run srProc p (Block prm q # es) =
     (case process srProc p prm q of None \<Rightarrow> None | Some r \<Rightarrow> run srProc (state r) es)"

text \<open>
  The output stream of a run: the pair of channels of every render block, in order.
\<close>

fun trace ::
    "real \<Rightarrow> processor \<Rightarrow> event list \<Rightarrow> (real option list \<times> real option list) list option" where
  "trace srProc p [] = Some []"
| "trace srProc p (Msg m # es) = trace srProc (handleMessage p m) es"
| "trace srProc p (Block prm q # es) =
     (case process srProc p prm q of
        None \<Rightarrow> None
      | Some r \<Rightarrow>
          (case trace srProc (state r) es of
             None \<Rightarrow> None
           | Some bs \<Rightarrow> Some ((outL r, outR r) # bs)))"

fun block_sizes :: "event list \<Rightarrow> nat list" where
  "block_sizes [] = []"
| "block_sizes (Msg m # es) = block_sizes es"
| "block_sizes (Block prm q # es) = q # block_sizes es"

section \<open>Segment preparation (js/audio/samplerInstrument.js)\<close>

record audio_buffer =
  ab_sampleRate :: real
  ab_length :: nat
  ab_channels :: "real list list"

text \<open>
  The two loops of \<open>applyEdgeFades\<close> over one channel. A typed array ignores a write
  outside its range, as the list update does.
\<close>

definition fade_in_step :: "int \<Rightarrow> real list \<Rightarrow> nat \<Rightarrow> real list" where
  "fade_in_step fadeN d i = d[i := d ! i * (real i / real_of_int fadeN)]"

definition fade_out_step :: "nat \<Rightarrow> int \<Rightarrow> real list \<Rightarrow> nat \<Rightarrow> real list" where
  "fade_out_step n fadeN d i =
     d[n - 1 - i := d ! (n - 1 - i) * (1 - real i / real_of_int fadeN)]"

definition fade_channel :: "nat \<Rightarrow> int \<Rightarrow> real list \<Rightarrow> real list" where
  "fade_channel n fadeN d =
     foldl (fade_out_step n fadeN) (foldl (fade_in_step fadeN) d [0..<nat fadeN]) [0..<nat fadeN]"

definition fade_len :: "real \<Rightarrow> nat \<Rightarrow> real \<Rightarrow> int" where
  "fade_len sr n fadeSec = min (to_int32 (int n) div 2) (max 1 \<lfloor>fadeSec * sr\<rfloor>)"

definition applyEdgeFades :: "audio_buffer \<Rightarrow> real \<Rightarrow> audio_buffer" where
  "applyEdgeFades buffer fadeSec =
     (let sr = ab_sampleRate buffer;
          n = ab_length buffer;
          fadeN = fade_len sr n fadeSec
      in buffer\<lparr>ab_channels := map (fade_channel n fadeN) (ab_channels buffer)\<rparr>)"

text \<open>
  \<open>subarray (b, e)\<close> of a typed array: a negative index counts from the end, both are
  clamped to the array, and an empty range gives an empty view.
\<close>

definition rel_index :: "nat \<Rightarrow> int \<Rightarrow> nat" where
  "rel_index len k = (if k < 0 then nat (max 0 (int len + k)) else min len (nat k))"

definition subarray :: "real list \<Rightarrow> int \<Rightarrow> int \<Rightarrow> real list" where
  "subarray d b e = drop (rel_index (length d) b) (take (rel_index (length d) e) d)"

text \<open>
  Step 1 of \<open>createGranularInstrument\<close>: slice the region \<open>[start, end)\<close> into a new
  buffer (zero-filled, then \<open>copyToChannel\<close> at offset 0) and fade its edges.
\<close>

definition prepare_segment :: "audio_buffer \<Rightarrow> real \<Rightarrow> real \<Rightarrow> audio_buffer" where
  "prepare_segment audioBuffer start end' =
     (let sr = ab_sampleRate audioBuffer;
          startFrame = max 0 \<lfloor>start * sr\<rfloor>;
          endFrame = min (int (ab_length audioBuffer)) \<lfloor>end' * sr\<rfloor>;
          len = nat (max 1 (endFrame - startFrame));
          seg = \<lparr>ab_sampleRate = sr, ab_length = len,
                 ab_channels = map (\<lambda>d. take len (subarray d startFrame endFrame @ replicate len 0))
                                   (ab_channels audioBuffer)\<rparr>;
          duration = real len / sr
      in applyEdgeFades seg (min 0.01 (duration * 0.05)))"

section \<open>The control interface (worklet branch of createGranularInstrument)\<close>

text \<open>
  The instrument keeps the id counter of \<open>makeIdGen\<close>, the map \<open>active\<close> from pitch to
  voice id, the base note and the live parameters that the note operations and
  \<open>setParams\<close> read. Each operation returns the messages it posts to the processor,
  in order. The updates of the post-EQ, the reverb send and the k-rate audio
  parameters of the node are outside the model.
\<close>

record instrument =
  idc :: nat
  active :: "int \<Rightarrow> nat option"
  baseNote :: real
  transpose :: real
  formantShift :: real
  brightnessParam :: real

definition makeInstrument :: "real \<Rightarrow> instrument" where
  "makeInstrument base =
     \<lparr>idc = 1, active = (\<lambda>_. None), baseNote = base, transpose = 0,
      formantShift = 0, brightnessParam = 0\<rparr>"

definition idGen :: "nat \<Rightarrow> nat" where
  "idGen i = (i + 1) mod 2 ^ 32"

definition midiToPlaybackRate :: "instrument \<Rightarrow> int \<Rightarrow> real" where
  "midiToPlaybackRate c midi =
     (let totalSemis = (real_of_int midi - baseNote c) + transpose c
      in 2 powr (totalSemis / 12))"

definition noteOff :: "instrument \<Rightarrow> int \<Rightarrow> instrument \<times> message list" where
  "noteOff c midi =
     (case active c midi of
        None \<Rightarrow> (c, [])
      | Some i \<Rightarrow> (c\<lparr>active := (active c)(midi := None)\<rparr>, [NoteOff (Some i)]))"

definition noteOn :: "instrument \<Rightarrow> int \<Rightarrow> real option \<Rightarrow> instrument \<times> message list" where
  "noteOn c midi velocity =
     (let (c1, m1) = (if active c midi \<noteq> None then noteOff c midi else (c, []));
          i = idGen (idc c1);
          c2 = c1\<lparr>idc := i, active := (active c1)(midi \<mapsto> i)\<rparr>;
          vel = (case velocity of None \<Rightarrow> 0.9 | Some x \<Rightarrow> x)
      in (c2, m1 @ [NoteOn (Some i) (Some (midiToPlaybackRate c2 midi))
                           (Some (clamp vel 0.001 1))]))"

text \<open>\<open>setParams (next)\<close> with the fields of \<open>next\<close> that the model keeps.\<close>

definition setParams ::
    "instrument \<Rightarrow> real option \<Rightarrow> real option \<Rightarrow> real option
       \<Rightarrow> instrument \<times> message list" where
  "setParams c tr fs br =
     (let c1 = c\<lparr>transpose := (case tr of None \<Rightarrow> transpose c | Some x \<Rightarrow> x),
                 formantShift := (case fs of None \<Rightarrow> formantShift c | Some x \<Rightarrow> x),
                 brightnessParam := (case br of None \<Rightarrow> brightnessParam c | Some x \<Rightarrow> x)\<rparr>;
          tilt = clamp (formantShift c1 / 3) (- 1) 1
      in (c1, [SetParams (Some tilt) (Some (clamp (brightnessParam c1) (- 1) 1))]))"

datatype call =
    CallOn int "real option"
  | CallOff int
  | CallSet "real option" "real option" "real option"

fun do_call :: "instrument \<Rightarrow> call \<Rightarrow> instrument \<times> message list" where
  "do_call c (CallOn midi vel) = noteOn c midi vel"
| "do_call c (CallOff midi) = noteOff c midi"
| "do_call c (CallSet tr fs br) = setParams c tr fs br"

fun calls :: "instrument \<Rightarrow> call list \<Rightarrow> instrument \<times> message list" where
  "calls c [] = (c, [])"
| "calls c (x # xs) =
     (fst (calls (fst (do_call c x)) xs),
      snd (do_call c x) @ snd (calls (fst (do_call c x)) xs))"

text \<open>
  The voices the forwarded messages leave switched on, as \<open>handleMessage\<close> sets and
  clears the \<open>on\<close> flag, and the ids the \<open>noteOn\<close> messages carry.
\<close>

fun sounding_step :: "nat set \<Rightarrow> message \<Rightarrow> nat set" where
  "sounding_step S (NoteOn (Some i) r g) = insert i S"
| "sounding_step S (NoteOff (Some i)) = S - {i}"
| "sounding_step S m = S"

definition sounding :: "message list \<Rightarrow> nat set" where
  "sounding ms = foldl sounding_step {} ms"

fun on_id :: "message \<Rightarrow> nat list" where
  "on_id (NoteOn (Some i) r g) = [i]"
| "on_id m = []"

definition on_ids :: "message list \<Rightarrow> nat list" where
  "on_ids ms = concat (map on_id ms)"

text \<open>
  What holds of the instrument between calls: no id in use is above the counter, and
  no two pitches share an id.
\<close>

definition ctl_inv :: "instrument \<Rightarrow> bool" where
  "ctl_inv c \<longleftrightarrow>
     (\<forall>m i. active c m = Some i \<longrightarrow> i \<le> idc c) \<and> inj_on (active c) (dom (active c))"

text \<open>What neither scheduling nor rendering touches.\<close>

definition same_setup :: "processor \<Rightarrow> processor \<Rightarrow> bool" where
  "same_setup p p' \<longleftrightarrow>
     sampleRateSrc p' = sampleRateSrc p \<and> bufL p' = bufL p \<and> bufR p' = bufR p \<and>
     plength p' = plength p \<and> maxVoices p' = maxVoices p \<and>
     formantTilt p' = formantTilt p \<and> brightness p' = brightness p"


section \<open>Properties\<close>

subsection \<open>A render block always returns\<close>

lemma scheduleGrainForVoice_plength:
  "plength (fst (scheduleGrainForVoice p v gs ov js)) = plength p"
  by (simp add: scheduleGrainForVoice_def Let_def split: prod.splits)

lemma schedule_loop_returns:
  "0 < plength p \<Longrightarrow>
   \<exists>p' v'. schedule_loop p v gs ov js = Some (p', v') \<and> plength p' = plength p"
proof (induction p v gs ov js rule: schedule_loop.induct)
  case (1 p v gs ov js)
  show ?case
  proof (cases "nextGrainAt v \<le> vtime v + 1 / 1000000")
    case True
    have "0 < plength (fst (scheduleGrainForVoice p v gs ov js))"
      using "1.prems" by (simp add: scheduleGrainForVoice_plength)
    with "1.IH" True "1.prems"
    obtain p' v' where
      "schedule_loop (fst (scheduleGrainForVoice p v gs ov js))
         (snd (scheduleGrainForVoice p v gs ov js)) gs ov js = Some (p', v')"
      "plength p' = plength (fst (scheduleGrainForVoice p v gs ov js))"
      by fastforce
    then show ?thesis
      using True "1.prems"
      by (subst schedule_loop.simps) (simp add: scheduleGrainForVoice_plength)
  next
    case False
    then show ?thesis by (subst schedule_loop.simps) simp
  qed
qed

lemma schedule_voice_returns:
  "0 < plength p \<Longrightarrow>
   \<exists>p' v'. schedule_voice p v gs ov js = Some (p', v') \<and> plength p' = plength p"
  unfolding schedule_voice_def using schedule_loop_returns by auto

lemma schedule_all_returns:
  "0 < plength p \<Longrightarrow>
   \<exists>p' vs'. schedule_all p vs gs ov js = Some (p', vs') \<and> plength p' = plength p
      \<and> length vs' = length vs"
proof (induction vs arbitrary: p)
  case Nil
  then show ?case by simp
next
  case (Cons v vs)
  from schedule_voice_returns [OF Cons.prems, of v gs ov js]
  obtain p1 v1 where a: "schedule_voice p v gs ov js = Some (p1, v1)" "plength p1 = plength p"
    by blast
  with Cons.prems have "0 < plength p1" by simp
  from Cons.IH [OF this]
  obtain p2 vs2 where b: "schedule_all p1 vs gs ov js = Some (p2, vs2)"
    "plength p2 = plength p1" "length vs2 = length vs" by blast
  show ?case using a b by simp
qed

lemma process_returns: "\<exists>r. process srProc p prm q = Some r"
proof (cases "plength p \<le> 0 \<or> length (bufL p) = 0")
  case True
  then show ?thesis by (simp add: process_def)
next
  case False
  then have "0 < plength p" by simp
  from schedule_all_returns [OF this]
  obtain p1 vs1 where
    "schedule_all p (voices p) (grainSize prm) (clamp (overlap prm) 0 0.95)
       (clamp (jitter prm) 0 0.02) = Some (p1, vs1)" by blast
  with False show ?thesis
    by (simp add: process_def Let_def split: prod.splits)
qed

lemma run_returns: "\<exists>p'. run srProc p evs = Some p'"
proof (induction evs arbitrary: p)
  case Nil
  then show ?case by simp
next
  case (Cons e evs)
  show ?case
  proof (cases e)
    case (Msg m)
    then show ?thesis using Cons.IH by simp
  next
    case (Block prm q)
    obtain r where "process srProc p prm q = Some r" using process_returns by blast
    then show ?thesis using Block Cons.IH by simp
  qed
qed

subsection \<open>The voice pool never exceeds its capacity\<close>

lemma length_map_set: "length (map_set vs v) \<le> Suc (length vs)"
  by (induction vs) auto

lemma handleMessage_maxVoices: "maxVoices (handleMessage p m) = maxVoices p"
  by (cases m) (auto simp: Let_def split: list.splits option.splits)

lemma handleMessage_voices_le:
  assumes a: "length (voices p) \<le> maxVoices p"
  shows "length (voices (handleMessage p m)) \<le> maxVoices p"
proof (cases m)
  case (NoteOn i r g)
  show ?thesis
  proof (cases "maxVoices p \<le> length (voices p)")
    case True
    then show ?thesis using a NoteOn by simp
  next
    case False
    then have s: "Suc (length (voices p)) \<le> maxVoices p" by simp
    show ?thesis
    proof (cases i)
      case None
      then show ?thesis using a NoteOn by simp
    next
      case (Some k)
      have "length (map_set (voices p) (new_voice k (case r of None \<Rightarrow> 1 | Some x \<Rightarrow> x)
                            (case g of None \<Rightarrow> 0.9 | Some x \<Rightarrow> x))) \<le> Suc (length (voices p))"
        by (rule length_map_set)
      with s show ?thesis using NoteOn Some False by simp
    qed
  qed
next
  case (LoadBuffer sr chans)
  then show ?thesis using a by (simp add: Let_def split: list.splits)
next
  case (NoteOff i)
  then show ?thesis using a by (simp split: option.splits)
next
  case (SetParams t b)
  then show ?thesis using a by (simp add: Let_def split: option.splits)
next
  case Other
  then show ?thesis using a by simp
qed

lemma same_setup_refl: "same_setup p p"
  by (simp add: same_setup_def)

lemma same_setup_trans: "same_setup p p1 \<Longrightarrow> same_setup p1 p2 \<Longrightarrow> same_setup p p2"
  by (simp add: same_setup_def)

lemma scheduleGrainForVoice_setup:
  "same_setup p (fst (scheduleGrainForVoice p v gs ov js))"
  by (simp add: scheduleGrainForVoice_def same_setup_def Let_def split: prod.splits)

lemma schedule_loop_setup:
  "schedule_loop p v gs ov js = Some (p', v') \<Longrightarrow> same_setup p p'"
proof (induction p v gs ov js rule: schedule_loop.induct)
  case (1 p v gs ov js)
  show ?case
  proof (cases "nextGrainAt v \<le> vtime v + 1 / 1000000")
    case True
    with "1.prems" have np: "\<not> plength p \<le> 0"
      by (subst (asm) schedule_loop.simps) (auto split: if_splits)
    with "1.prems" True have
      "schedule_loop (fst (scheduleGrainForVoice p v gs ov js))
         (snd (scheduleGrainForVoice p v gs ov js)) gs ov js = Some (p', v')"
      by (subst (asm) schedule_loop.simps) simp
    from "1.IH" [OF True np this]
    have "same_setup (fst (scheduleGrainForVoice p v gs ov js)) p'" .
    with scheduleGrainForVoice_setup show ?thesis
      by (rule same_setup_trans)
  next
    case False
    with "1.prems" show ?thesis
      by (subst (asm) schedule_loop.simps) (auto simp: same_setup_refl)
  qed
qed

lemma schedule_voice_setup:
  "schedule_voice p v gs ov js = Some (p', v') \<Longrightarrow> same_setup p p'"
  unfolding schedule_voice_def
  by (auto split: if_splits dest: schedule_loop_setup simp: same_setup_refl)

lemma schedule_all_setup:
  "schedule_all p vs gs ov js = Some (p', vs') \<Longrightarrow>
   same_setup p p' \<and> length vs' = length vs"
proof (induction vs arbitrary: p vs')
  case Nil
  then show ?case by (simp add: same_setup_refl)
next
  case (Cons v vs)
  from Cons.prems obtain p1 v1 vs2 where
    a: "schedule_voice p v gs ov js = Some (p1, v1)" and
    b: "schedule_all p1 vs gs ov js = Some (p', vs2)" and c: "vs' = v1 # vs2"
    by (auto split: option.splits)
  from schedule_voice_setup [OF a] have f1: "same_setup p p1" .
  from Cons.IH [OF b] have f2: "same_setup p1 p'" "length vs2 = length vs" by auto
  show ?case using c f2(2) same_setup_trans [OF f1 f2(1)] by simp
qed

lemma voices_tick_Cons_snd:
  "snd (voices_tick srcL srcR len mix (v # vs)) =
     (if \<not> von v \<and> snd (grains_tick srcL srcR len mix (grains v)) = []
      then snd (voices_tick srcL srcR len (fst (grains_tick srcL srcR len mix (grains v))) vs)
      else v\<lparr>grains := snd (grains_tick srcL srcR len mix (grains v))\<rparr>
           # snd (voices_tick srcL srcR len (fst (grains_tick srcL srcR len mix (grains v))) vs))"
  by (simp add: Let_def split: prod.splits)

lemma voices_tick_length:
  "length (snd (voices_tick srcL srcR len mix vs)) \<le> length vs"
proof (induction vs arbitrary: mix)
  case Nil
  show ?case by simp
next
  case (Cons v vs)
  have "length (snd (voices_tick srcL srcR len (fst (grains_tick srcL srcR len mix (grains v))) vs))
          \<le> length vs" by (rule Cons.IH)
  then show ?case by (simp only: voices_tick_Cons_snd list.size split: if_splits) simp
qed

lemma sample_tick_voices:
  "voices (fst (sample_tick sr p))
     = snd (voices_tick (bufL p) (bufR p) (plength p) (Some 0, Some 0) (voices p))"
  by (simp add: sample_tick_def Let_def split: prod.splits)

lemma sample_tick_setup:
  "same_setup p (fst (sample_tick sr p))"
  by (simp add: sample_tick_def same_setup_def Let_def split: prod.splits)

lemma sample_tick_voices_le:
  "length (voices (fst (sample_tick sr p))) \<le> length (voices p)"
  by (simp only: sample_tick_voices voices_tick_length)

lemma render_Suc_fst:
  "fst (render (Suc n) sr p) = fst (render n sr (fst (sample_tick sr p)))"
  by (simp add: Let_def split: prod.splits)

lemma render_setup:
  "same_setup p (fst (render n sr p))
   \<and> length (voices (fst (render n sr p))) \<le> length (voices p)"
proof (induction n arbitrary: p)
  case 0
  then show ?case by (simp add: same_setup_refl)
next
  case (Suc n)
  define p1 where "p1 = fst (sample_tick sr p)"
  have f1: "same_setup p p1"
    unfolding p1_def by (rule sample_tick_setup)
  have l1: "length (voices p1) \<le> length (voices p)"
    unfolding p1_def by (rule sample_tick_voices_le)
  from Suc.IH [of p1] have
    f2: "same_setup p1 (fst (render n sr p1))"
    and l2: "length (voices (fst (render n sr p1))) \<le> length (voices p1)" by auto
  show ?case
    unfolding render_Suc_fst p1_def [symmetric]
    using same_setup_trans [OF f1 f2] l1 l2 by simp
qed

lemma process_voices_le:
  assumes "process sr p prm q = Some r"
  shows "length (voices (state r)) \<le> length (voices p) \<and> same_setup p (state r)"
proof (cases "plength p \<le> 0 \<or> length (bufL p) = 0")
  case True
  with assms show ?thesis by (auto simp: process_def same_setup_refl)
next
  case False
  with assms obtain p1 vs1 where
    s: "schedule_all p (voices p) (grainSize prm) (clamp (overlap prm) 0 0.95)
          (clamp (jitter prm) 0 0.02) = Some (p1, vs1)"
    by (auto simp: process_def Let_def split: option.splits)
  define p2 where "p2 = fst (render q sr (p1\<lparr>voices := vs1\<rparr>))"
  from assms False s
  have r: "state r = p2\<lparr>voices := map (\<lambda>v. v\<lparr>vtime := vtime v + real q / sr\<rparr>) (voices p2)\<rparr>"
    by (auto simp: process_def Let_def p2_def split: prod.splits)
  from schedule_all_setup [OF s] have f: "same_setup p p1" and fl: "length vs1 = length (voices p)"
    by simp_all
  from render_setup [of "p1\<lparr>voices := vs1\<rparr>" q sr] have
    g: "same_setup (p1\<lparr>voices := vs1\<rparr>) p2"
    and l: "length (voices p2) \<le> length vs1"
    by (simp_all add: p2_def)
  have "same_setup p (state r)"
    using f g unfolding r by (simp add: same_setup_def)
  then show ?thesis using l fl unfolding r by simp
qed

lemma run_voices_le:
  "run sr p evs = Some p' \<Longrightarrow> length (voices p) \<le> maxVoices p \<Longrightarrow>
   length (voices p') \<le> maxVoices p' \<and> maxVoices p' = maxVoices p"
proof (induction evs arbitrary: p)
  case Nil
  then show ?case by simp
next
  case (Cons e evs)
  show ?case
  proof (cases e)
    case (Msg m)
    with Cons.prems have "run sr (handleMessage p m) evs = Some p'" by simp
    moreover have "length (voices (handleMessage p m)) \<le> maxVoices (handleMessage p m)"
      using handleMessage_voices_le [OF Cons.prems(2)] by (simp add: handleMessage_maxVoices)
    ultimately show ?thesis using Cons.IH [of "handleMessage p m"]
      by (simp add: handleMessage_maxVoices)
  next
    case (Block prm q)
    with Cons.prems obtain r where r: "process sr p prm q = Some r" "run sr (state r) evs = Some p'"
      by (auto split: option.splits)
    from process_voices_le [OF r(1)] Cons.prems(2)
    have "length (voices (state r)) \<le> maxVoices (state r)" "maxVoices (state r) = maxVoices p"
      by (auto simp: same_setup_def)
    with Cons.IH [OF r(2)] show ?thesis by simp
  qed
qed

text \<open>
  C3. Whatever messages and render blocks the processor has gone through since its
  construction, the run returns, the pool holds at most 32 voices, and a \<open>noteOn\<close>
  that arrives when the pool holds 32 leaves the whole state as it is.
\<close>

theorem voices_bounded:
  "\<exists>p. run sr constructor evs = Some p \<and> length (voices p) \<le> 32 \<and>
       (length (voices p) = 32 \<longrightarrow> handleMessage p (NoteOn i r g) = p)"
proof -
  obtain p where p: "run sr constructor evs = Some p" using run_returns by blast
  have "length (voices constructor) \<le> maxVoices constructor" by (simp add: constructor_def)
  from run_voices_le [OF p this] have "length (voices p) \<le> maxVoices p" "maxVoices p = 32"
    by (simp_all add: constructor_def)
  then show ?thesis using p by auto
qed

theorem voices_bounded_witness:
  "length (voices (the (run 48000 constructor
      (map (\<lambda>k. Msg (NoteOn (Some k) None None))
        [0, 1, 2, 3, 4, 5, 6, 7, 8, 9, 10, 11, 12, 13, 14, 15, 16, 17, 18, 19, 20,
         21, 22, 23, 24, 25, 26, 27, 28, 29, 30, 31, 32, 33, 34, 35, 36])))) = 32
   \<and> handleMessage (the (run 48000 constructor
      (map (\<lambda>k. Msg (NoteOn (Some k) None None))
        [0, 1, 2, 3, 4, 5, 6, 7, 8, 9, 10, 11, 12, 13, 14, 15, 16, 17, 18, 19, 20,
         21, 22, 23, 24, 25, 26, 27, 28, 29, 30, 31, 32, 33, 34, 35, 36])))
        (NoteOn (Some 99) None None)
     = the (run 48000 constructor
      (map (\<lambda>k. Msg (NoteOn (Some k) None None))
        [0, 1, 2, 3, 4, 5, 6, 7, 8, 9, 10, 11, 12, 13, 14, 15, 16, 17, 18, 19, 20,
         21, 22, 23, 24, 25, 26, 27, 28, 29, 30, 31, 32, 33, 34, 35, 36]))"
proof -
  define E where "E = map (\<lambda>k. Msg (NoteOn (Some k) None None))
        [0, 1, 2, 3, 4, 5, 6, 7, 8, 9, 10, 11, 12, 13, 14, 15, 16, 17, 18, 19, 20,
         21, 22, 23, 24, 25, 26, 27, 28, 29, 30, 31, 32, 33, 34, 35, 36 :: nat]"
  have l: "length (voices (the (run 48000 constructor E))) = 32"
    unfolding E_def by (simp add: constructor_def new_voice_def)
  from voices_bounded [of 48000 E "Some 99" None None]
  obtain p where p: "run 48000 constructor E = Some p"
    and i: "length (voices p) = 32 \<longrightarrow> handleMessage p (NoteOn (Some 99) None None) = p"
    by blast
  have t: "the (run 48000 constructor E) = p" by (simp only: p option.sel)
  have "length (voices p) = 32" using l by (simp only: t)
  with i have "handleMessage p (NoteOn (Some 99) None None) = p" by (rule mp)
  with l have "length (voices (the (run 48000 constructor E))) = 32
     \<and> handleMessage (the (run 48000 constructor E)) (NoteOn (Some 99) None None)
       = the (run 48000 constructor E)"
    by (simp only: t simp_thms)
  then show ?thesis unfolding E_def .
qed

subsection \<open>No segment: silence\<close>

text \<open>
  C6. With no segment loaded (\<open>length\<close> is 0) a render block returns \<open>true\<close>, leaves
  the state untouched and fills both output channels with zeros, whatever voices
  the pool holds.
\<close>

theorem process_no_segment_silence:
  "plength p \<le> 0 \<Longrightarrow>
   process srProc p prm q =
     Some \<lparr>state = p, outL = replicate q (Some 0), outR = replicate q (Some 0), ret = True\<rparr>"
  by (simp add: process_def)

theorem process_no_segment_silence_witness:
  "plength (handleMessage constructor (NoteOn (Some 7) (Some 2) (Some 1))) \<le> 0 \<and>
   length (voices (handleMessage constructor (NoteOn (Some 7) (Some 2) (Some 1)))) = 1 \<and>
   process 48000 (handleMessage constructor (NoteOn (Some 7) (Some 2) (Some 1)))
       \<lparr>grainSize = 0.04, overlap = 0.5, jitter = 0.002\<rparr> 4 =
     Some \<lparr>state = handleMessage constructor (NoteOn (Some 7) (Some 2) (Some 1)),
           outL = [Some 0, Some 0, Some 0, Some 0],
           outR = [Some 0, Some 0, Some 0, Some 0], ret = True\<rparr>"
proof -
  have h: "plength (handleMessage constructor (NoteOn (Some 7) (Some 2) (Some 1))) \<le> 0"
    by (simp add: constructor_def)
  have r: "replicate 4 (Some (0::real)) = [Some 0, Some 0, Some 0, Some 0]"
    by (simp add: numeral_eq_Suc)
  have l: "length (voices (handleMessage constructor (NoteOn (Some 7) (Some 2) (Some 1)))) = 1"
    by (simp add: constructor_def)
  show ?thesis
    using h l process_no_segment_silence [OF h, of 48000
        "\<lparr>grainSize = 0.04, overlap = 0.5, jitter = 0.002\<rparr>" 4]
    by (simp only: r simp_thms)
qed

subsection \<open>Length and start of a new grain\<close>

lemma rng_next_snd:
  "snd (rng_next s) = real (unat (rng_step s AND 0x7fffffff)) / 0x80000000"
  unfolding rng_next_def Let_def snd_conv ..

lemma rng_next_range: "0 \<le> snd (rng_next s) \<and> snd (rng_next s) < 1"
proof -
  define n where "n = unat (rng_step s AND 0x7fffffff)"
  have "unat (rng_step s AND 0x7fffffff) \<le> unat (0x7fffffff :: 32 word)"
    by (rule word_and_le1 [THEN word_le_nat_alt [THEN iffD1]])
  then have "n < 2147483648" by (simp add: n_def)
  then have "0 \<le> real n / 2147483648 \<and> real n / 2147483648 < 1" by simp
  then show ?thesis unfolding rng_next_snd n_def by simp
qed

lemma rng_norm_snd: "snd (rng_norm s) = snd (rng_next s) * 2 - 1"
  by (cases "rng_next s") (simp add: rng_norm_def)

lemma rng_norm_range: "- 1 \<le> snd (rng_norm s) \<and> snd (rng_norm s) < 1"
  using rng_next_range [of s] unfolding rng_norm_snd by simp

lemma to_int32_id: "- (2 ^ 31) \<le> x \<Longrightarrow> x < 2 ^ 31 \<Longrightarrow> to_int32 x = x"
  by (simp add: to_int32_def)

lemma scheduleGrainForVoice_grains:
  "0 < plength p \<Longrightarrow>
   grains (snd (scheduleGrainForVoice p v gs ov js)) =
     grains v @
     [new_grain
        (real_of_int (grain_start (plength p) (sampleRateSrc p) gs js
           (snd (rng_next (rng p))) (snd (rng_norm (fst (rng_next (rng p)))))))
        (real_of_int (grain_start (plength p) (sampleRateSrc p) gs js
           (snd (rng_next (rng p))) (snd (rng_norm (fst (rng_next (rng p)))))))
        (grainFrames gs (sampleRateSrc p)) (vrate v) (vgain v)]"
  by (simp add: scheduleGrainForVoice_def Let_def split: prod.splits)

lemma floor_scaled_bounds:
  fixes u :: real and m :: int
  assumes "0 \<le> u" "u < 1"
  shows "0 \<le> m \<Longrightarrow> 0 \<le> \<lfloor>u * real_of_int m\<rfloor> \<and> \<lfloor>u * real_of_int m\<rfloor> \<le> m"
    and "0 < m \<Longrightarrow> \<lfloor>u * real_of_int m\<rfloor> < m"
    and "m < 0 \<Longrightarrow> m \<le> \<lfloor>u * real_of_int m\<rfloor> \<and> \<lfloor>u * real_of_int m\<rfloor> \<le> 0"
proof -
  show "0 \<le> m \<Longrightarrow> 0 \<le> \<lfloor>u * real_of_int m\<rfloor> \<and> \<lfloor>u * real_of_int m\<rfloor> \<le> m"
  proof -
    assume m: "0 \<le> m"
    have a: "0 \<le> u * real_of_int m" using assms m by simp
    have "u * real_of_int m \<le> 1 * real_of_int m"
      using assms m by (intro mult_right_mono) auto
    then have b: "u * real_of_int m \<le> real_of_int m" by simp
    from a have "0 \<le> \<lfloor>u * real_of_int m\<rfloor>" by simp
    moreover from b have "\<lfloor>u * real_of_int m\<rfloor> \<le> m" using floor_mono by fastforce
    ultimately show ?thesis by simp
  qed
  show "0 < m \<Longrightarrow> \<lfloor>u * real_of_int m\<rfloor> < m"
  proof -
    assume m: "0 < m"
    have "u * real_of_int m < 1 * real_of_int m"
      using assms m by (intro mult_strict_right_mono) auto
    then have "u * real_of_int m < real_of_int m" by simp
    then show ?thesis by (simp add: floor_less_iff)
  qed
  show "m < 0 \<Longrightarrow> m \<le> \<lfloor>u * real_of_int m\<rfloor> \<and> \<lfloor>u * real_of_int m\<rfloor> \<le> 0"
  proof -
    assume m: "m < 0"
    have a: "u * real_of_int m \<le> 0" using assms m by (simp add: mult_le_0_iff)
    have "1 * real_of_int m \<le> u * real_of_int m"
      using assms m by (intro mult_right_mono_neg) auto
    then have b: "real_of_int m \<le> u * real_of_int m" by simp
    from a have "\<lfloor>u * real_of_int m\<rfloor> \<le> 0" using floor_mono by fastforce
    moreover from b have "m \<le> \<lfloor>u * real_of_int m\<rfloor>" by (simp add: le_floor_iff)
    ultimately show ?thesis by simp
  qed
qed

lemma floor_jitter_bounds:
  fixes a w :: real
  assumes "\<bar>a\<bar> \<le> 2 ^ 30" "- 1 \<le> w" "w < 1"
  shows "- (2 ^ 30) \<le> \<lfloor>a * w\<rfloor> \<and> \<lfloor>a * w\<rfloor> \<le> 2 ^ 30"
proof -
  have "\<bar>a * w\<bar> = \<bar>a\<bar> * \<bar>w\<bar>" by (rule abs_mult)
  also have "\<dots> \<le> 2 ^ 30 * 1"
    using assms by (intro mult_mono) auto
  finally have b: "\<bar>a * w\<bar> \<le> 2 ^ 30" by simp
  then have "- (2 ^ 30) \<le> a * w" "a * w \<le> 2 ^ 30" by linarith+
  then have "real_of_int (- (2 ^ 30)) \<le> a * w" "a * w \<le> real_of_int (2 ^ 30)" by simp_all
  then have "- (2 ^ 30) \<le> \<lfloor>a * w\<rfloor>" "\<lfloor>a * w\<rfloor> \<le> 2 ^ 30"
    by (simp_all only: le_floor_iff floor_le_iff)
  then show ?thesis by simp
qed


text \<open>
  C5, as stated, fails: the source takes \<open>Math.floor\<close>, not the nearest integer. With
  \<open>grainSizeSec = 0.0102\<close> at 44100 Hz the new grain is 449 frames long, while
  \<open>max 16 (round (grainSizeSec * sampleRate))\<close> is 450.
\<close>

theorem grain_length_counterexample:
  "glength (last (grains (snd (scheduleGrainForVoice
       (handleMessage constructor (LoadBuffer (Some 44100) [replicate 44100 0]))
       (new_voice 1 1 1) (102 / 10000) (1 / 2) (2 / 1000))))) = 449
   \<and> max 16 (round (102 / 10000 * 44100 :: real)) = 450"
  by (simp add: scheduleGrainForVoice_def constructor_def to_int32_def Let_def
      grainFrames_def new_voice_def new_grain_def round_def split: prod.splits)


text \<open>
  C5, amended. With a segment of \<open>L\<close> frames loaded (\<open>L\<close>, the grain length and
  \<open>jitterSec * sampleRate\<close> at most \<open>2 ^ 30\<close>, so that no 32-bit conversion wraps), a
  new grain has length \<open>gf = max 16 (floor (grainSizeSec * sampleRate))\<close>, progress 0 and
  the rate and gain of its voice. Its start is
  \<open>max 0 (min (L - gf - 1) (startFrame + jitterFrames))\<close>, on both channels, where
  \<open>startFrame = floor (u * (L - gf - 1))\<close> for the generator's next draw \<open>u\<close> in
  \<open>[0, 1)\<close> and \<open>jitterFrames = floor (jitterSec * sampleRate * w)\<close> for the following
  draw \<open>w\<close> in \<open>[-1, 1)\<close>. When \<open>gf < L\<close>, \<open>startFrame\<close> and the start both lie in
  \<open>[0, L - gf - 1]\<close>, and \<open>startFrame < L - gf - 1\<close> when that bound is positive.
\<close>

theorem grain_placement:
  assumes "0 < plength p" and "plength p \<le> 2 ^ 30"
    and "grainFrames gs (sampleRateSrc p) \<le> 2 ^ 30"
    and "\<bar>js * sampleRateSrc p\<bar> \<le> 2 ^ 30"
  shows
   "(let sr = sampleRateSrc p;
         L = plength p;
         gf = max 16 \<lfloor>gs * sr\<rfloor>;
         u = snd (rng_next (rng p));
         w = snd (rng_norm (fst (rng_next (rng p))));
         startFrame = \<lfloor>u * real_of_int (L - gf - 1)\<rfloor>;
         jitterFrames = \<lfloor>js * sr * w\<rfloor>;
         s = max 0 (min (L - gf - 1) (startFrame + jitterFrames))
     in 0 \<le> u \<and> u < 1 \<and> - 1 \<le> w \<and> w < 1 \<and>
        grains (snd (scheduleGrainForVoice p v gs ov js)) =
          grains v @ [\<lparr>posL = real_of_int s, posR = real_of_int s, glength = gf, gi = 0,
                        grate = vrate v, ggain = vgain v\<rparr>] \<and>
        (gf < L \<longrightarrow> 0 \<le> startFrame \<and> startFrame \<le> L - gf - 1 \<and> 0 \<le> s \<and> s \<le> L - gf - 1) \<and>
        (gf + 1 < L \<longrightarrow> startFrame < L - gf - 1))"
proof -
  define sr where "sr = sampleRateSrc p"
  define L where "L = plength p"
  define gf where "gf = max 16 \<lfloor>gs * sr\<rfloor>"
  define u where "u = snd (rng_next (rng p))"
  define w where "w = snd (rng_norm (fst (rng_next (rng p))))"
  define m where "m = L - gf - 1"
  define startFrame where "startFrame = \<lfloor>u * real_of_int m\<rfloor>"
  define jitterFrames where "jitterFrames = \<lfloor>js * sr * w\<rfloor>"
  define s where "s = max 0 (min m (startFrame + jitterFrames))"
  have u: "0 \<le> u" "u < 1" using rng_next_range [of "rng p"] by (simp_all add: u_def)
  have w: "- 1 \<le> w" "w < 1"
    using rng_norm_range [of "fst (rng_next (rng p))"] by (simp_all add: w_def)
  have gf: "16 \<le> gf" "gf \<le> 2 ^ 30"
    using assms(3) by (simp_all add: gf_def grainFrames_def sr_def)
  have Lb: "0 < L" "L \<le> 2 ^ 30" using assms(1,2) by (simp_all add: L_def)
  have mb: "- (2 ^ 30) \<le> m" "m < 2 ^ 30" using gf Lb by (simp_all add: m_def)
  have sb: "- (2 ^ 30) \<le> startFrame \<and> startFrame < 2 ^ 30"
  proof (cases "0 \<le> m")
    case True
    have "0 \<le> startFrame \<and> startFrame \<le> m"
      unfolding startFrame_def by (rule floor_scaled_bounds(1) [OF u True])
    with mb show ?thesis by linarith
  next
    case False
    then have "m < 0" by simp
    then have "m \<le> startFrame \<and> startFrame \<le> 0"
      unfolding startFrame_def by (rule floor_scaled_bounds(3) [OF u])
    with mb show ?thesis by linarith
  qed
  have jb: "- (2 ^ 30) \<le> jitterFrames \<and> jitterFrames \<le> 2 ^ 30"
    using floor_jitter_bounds [OF _ w, of "js * sr"] assms(4)
    by (simp add: jitterFrames_def sr_def)
  have t1: "to_int32 (startFrame + jitterFrames) = startFrame + jitterFrames"
    using sb jb by (intro to_int32_id) simp_all
  have "- (2 ^ 31) \<le> s \<and> s < 2 ^ 31"
    using mb by (simp add: s_def max_def min_def)
  then have t2: "to_int32 s = s" by (intro to_int32_id) simp_all
  have "grain_start L sr gs js u w =
          clampInt (\<lfloor>u * real_of_int (L - max 16 \<lfloor>gs * sr\<rfloor> - 1)\<rfloor> + \<lfloor>js * sr * w\<rfloor>) 0
            (L - max 16 \<lfloor>gs * sr\<rfloor> - 1)"
    by (simp only: grain_start_def Let_def grainFrames_def)
  also have "\<dots> = clampInt (startFrame + jitterFrames) 0 m"
    by (simp only: startFrame_def jitterFrames_def m_def gf_def)
  also have "\<dots> = to_int32 (max 0 (min m (to_int32 (startFrame + jitterFrames))))"
    by (simp only: clampInt_def)
  also have "\<dots> = to_int32 s"
    by (simp only: t1 s_def)
  also have "\<dots> = s" by (rule t2)
  finally have gs: "grain_start L sr gs js u w = s" .
  have g: "grains (snd (scheduleGrainForVoice p v gs ov js)) =
          grains v @ [\<lparr>posL = real_of_int s, posR = real_of_int s, glength = gf, gi = 0,
                        grate = vrate v, ggain = vgain v\<rparr>]"
    using scheduleGrainForVoice_grains [OF assms(1), of v gs ov js] gs
    by (simp add: new_grain_def grainFrames_def gf_def sr_def L_def u_def w_def)
  have r1: "gf < L \<longrightarrow> 0 \<le> startFrame \<and> startFrame \<le> m \<and> 0 \<le> s \<and> s \<le> m"
  proof
    assume "gf < L"
    then have m0: "0 \<le> m" by (simp add: m_def)
    have "0 \<le> startFrame \<and> startFrame \<le> m"
      unfolding startFrame_def by (rule floor_scaled_bounds(1) [OF u m0])
    moreover have "0 \<le> s \<and> s \<le> m" using m0 by (simp add: s_def)
    ultimately show "0 \<le> startFrame \<and> startFrame \<le> m \<and> 0 \<le> s \<and> s \<le> m" by simp
  qed
  have r2: "gf + 1 < L \<longrightarrow> startFrame < m"
  proof
    assume "gf + 1 < L"
    then have "0 < m" by (simp add: m_def)
    then show "startFrame < m"
      unfolding startFrame_def by (rule floor_scaled_bounds(2) [OF u])
  qed
  show ?thesis
    using u w g r1 r2
    unfolding Let_def sr_def [symmetric] L_def [symmetric] gf_def [symmetric]
      u_def [symmetric] w_def [symmetric] m_def [symmetric] startFrame_def [symmetric]
      jitterFrames_def [symmetric] s_def [symmetric]
    by simp
qed


theorem grain_placement_witness:
  "0 < plength (handleMessage constructor (LoadBuffer (Some 44100) [replicate 44100 0]))
   \<and> plength (handleMessage constructor (LoadBuffer (Some 44100) [replicate 44100 0])) \<le> 2 ^ 30
   \<and> grainFrames (4 / 100)
        (sampleRateSrc (handleMessage constructor (LoadBuffer (Some 44100) [replicate 44100 0])))
        \<le> 2 ^ 30
   \<and> \<bar>2 / 1000 *
        sampleRateSrc (handleMessage constructor (LoadBuffer (Some 44100) [replicate 44100 0]))\<bar>
        \<le> 2 ^ 30
   \<and> glength (last (grains (snd (scheduleGrainForVoice
         (handleMessage constructor (LoadBuffer (Some 44100) [replicate 44100 0]))
         (new_voice 1 1 1) (4 / 100) (1 / 2) (2 / 1000))))) = 1764
   \<and> 0 \<le> posL (last (grains (snd (scheduleGrainForVoice
         (handleMessage constructor (LoadBuffer (Some 44100) [replicate 44100 0]))
         (new_voice 1 1 1) (4 / 100) (1 / 2) (2 / 1000)))))
   \<and> posL (last (grains (snd (scheduleGrainForVoice
         (handleMessage constructor (LoadBuffer (Some 44100) [replicate 44100 0]))
         (new_voice 1 1 1) (4 / 100) (1 / 2) (2 / 1000))))) \<le> 42335"
proof -
  define P where "P = handleMessage constructor (LoadBuffer (Some 44100) [replicate 44100 0])"
  have L: "plength P = 44100" and sr: "sampleRateSrc P = 44100"
    by (simp_all add: P_def constructor_def to_int32_def Let_def)
  have h1: "0 < plength P" and h2: "plength P \<le> 2 ^ 30" by (simp_all add: L)
  have h3: "grainFrames (4 / 100) (sampleRateSrc P) \<le> 2 ^ 30"
    by (simp add: sr grainFrames_def)
  have h4: "\<bar>2 / 1000 * sampleRateSrc P\<bar> \<le> 2 ^ 30" by (simp add: sr)
  have gf: "max 16 \<lfloor>4 / 100 * sampleRateSrc P\<rfloor> = 1764" by (simp add: sr)
  have "glength (last (grains (snd (scheduleGrainForVoice P (new_voice 1 1 1)
            (4 / 100) (1 / 2) (2 / 1000))))) = 1764
   \<and> 0 \<le> posL (last (grains (snd (scheduleGrainForVoice P (new_voice 1 1 1)
            (4 / 100) (1 / 2) (2 / 1000)))))
   \<and> posL (last (grains (snd (scheduleGrainForVoice P (new_voice 1 1 1)
            (4 / 100) (1 / 2) (2 / 1000))))) \<le> 42335"
    using grain_placement [OF h1 h2 h3 h4, of "new_voice 1 1 1" "1 / 2"]
    unfolding Let_def gf L by simp
  with h1 h2 h3 h4 show ?thesis unfolding P_def by blast
qed

subsection \<open>The timbre shaper\<close>







subsection \<open>Edge fades of the prepared segment\<close>

text \<open>
  What the two loops of \<open>applyEdgeFades\<close> leave in a channel of \<open>n\<close> samples: sample
  \<open>j\<close> of the first \<open>fadeN\<close> is scaled by \<open>j / fadeN\<close>, sample \<open>j\<close> of the last \<open>fadeN\<close>
  by \<open>1 - (n - 1 - j) / fadeN\<close>, the others are untouched.
\<close>

lemma foldl_fade_in:
  "length (foldl (fade_in_step f) d [0..<k]) = length d \<and>
   (\<forall>j < length d. foldl (fade_in_step f) d [0..<k] ! j =
      (if j < k then d ! j * (real j / real_of_int f) else d ! j))"
proof (induction k)
  case 0
  show ?case by simp
next
  case (Suc k)
  define X where "X = foldl (fade_in_step f) d [0..<k]"
  have s: "foldl (fade_in_step f) d [0..<Suc k] = X[k := X ! k * (real k / real_of_int f)]"
    by (simp add: X_def fade_in_step_def)
  from Suc have l: "length X = length d"
    and n: "\<And>j. j < length d \<Longrightarrow> X ! j = (if j < k then d ! j * (real j / real_of_int f) else d ! j)"
    by (simp_all add: X_def)
  have "\<forall>j < length d. X[k := X ! k * (real k / real_of_int f)] ! j =
      (if j < Suc k then d ! j * (real j / real_of_int f) else d ! j)"
  proof (intro allI impI)
    fix j assume j: "j < length d"
    show "X[k := X ! k * (real k / real_of_int f)] ! j =
      (if j < Suc k then d ! j * (real j / real_of_int f) else d ! j)"
    proof (cases "j = k")
      case True
      then show ?thesis using j l n [OF j] by simp
    next
      case False
      then have "(j < Suc k) = (j < k)" by auto
      then show ?thesis using False n [OF j] by simp
    qed
  qed
  then show ?case unfolding s by (simp add: l)
qed

lemma foldl_fade_out:
  "k \<le> length d \<Longrightarrow>
   length (foldl (fade_out_step (length d) f) d [0..<k]) = length d \<and>
   (\<forall>j < length d. foldl (fade_out_step (length d) f) d [0..<k] ! j =
      (if length d - k \<le> j then d ! j * (1 - real (length d - 1 - j) / real_of_int f)
       else d ! j))"
proof (induction k)
  case 0
  show ?case by simp
next
  case (Suc k)
  define X where "X = foldl (fade_out_step (length d) f) d [0..<k]"
  define n where "n = length d"
  have s: "foldl (fade_out_step n f) d [0..<Suc k] =
             X[n - 1 - k := X ! (n - 1 - k) * (1 - real k / real_of_int f)]"
    by (simp add: X_def n_def fade_out_step_def)
  from Suc have k: "Suc k \<le> n" by (simp add: n_def)
  from Suc have l: "length X = n"
    and x: "\<And>j. j < n \<Longrightarrow> X ! j =
       (if n - k \<le> j then d ! j * (1 - real (n - 1 - j) / real_of_int f) else d ! j)"
    by (simp_all add: X_def n_def)
  have "\<forall>j < n. X[n - 1 - k := X ! (n - 1 - k) * (1 - real k / real_of_int f)] ! j =
      (if n - Suc k \<le> j then d ! j * (1 - real (n - 1 - j) / real_of_int f) else d ! j)"
  proof (intro allI impI)
    fix j assume j: "j < n"
    show "X[n - 1 - k := X ! (n - 1 - k) * (1 - real k / real_of_int f)] ! j =
      (if n - Suc k \<le> j then d ! j * (1 - real (n - 1 - j) / real_of_int f) else d ! j)"
    proof (cases "j = n - 1 - k")
      case True
      have a: "n - 1 - j = k" using True k by simp
      have b: "\<not> n - k \<le> j" using True k by simp
      have c: "n - Suc k \<le> j" using True by simp
      have "X ! j = d ! j" using x [OF j] b by simp
      then show ?thesis using True j l a c by simp
    next
      case False
      then have "X[n - 1 - k := X ! (n - 1 - k) * (1 - real k / real_of_int f)] ! j = X ! j"
        by simp
      moreover have "(n - Suc k \<le> j) = (n - k \<le> j)" using False k by auto
      ultimately show ?thesis using x [OF j] by simp
    qed
  qed
  then show ?case unfolding n_def [symmetric] s by (simp add: l)
qed

lemma fade_channel_nth:
  assumes "length d = n" and "2 * nat f \<le> n" and "j < n"
  shows "fade_channel n f d ! j =
     (if j < nat f then d ! j * (real j / real_of_int f)
      else if n - nat f \<le> j then d ! j * (1 - real (n - 1 - j) / real_of_int f)
      else d ! j)"
proof -
  define X where "X = foldl (fade_in_step f) d [0..<nat f]"
  have l: "length X = n"
    and x: "\<And>i. i < n \<Longrightarrow> X ! i = (if i < nat f then d ! i * (real i / real_of_int f) else d ! i)"
    using foldl_fade_in [of f d "nat f"] assms(1) by (simp_all add: X_def)
  have k: "nat f \<le> length X" using assms(2) l by simp
  from foldl_fade_out [OF k, of f] l assms(3)
  have "foldl (fade_out_step n f) X [0..<nat f] ! j =
      (if n - nat f \<le> j then X ! j * (1 - real (n - 1 - j) / real_of_int f) else X ! j)"
    by simp
  moreover have "n - nat f \<le> j \<Longrightarrow> \<not> j < nat f" using assms(2) by simp
  ultimately show ?thesis
    using x [OF assms(3)] by (auto simp: fade_channel_def X_def [symmetric])
qed




lemma subarray_dc_second:
  "subarray (replicate 48000 (1::real)) 0 48000 = replicate 48000 1"
  by (simp add: subarray_def rel_index_def)

lemma fade_len_dc_second: "fade_len 48000 48000 (1 / 100) = 480"
  by (simp add: fade_len_def to_int32_def)

lemma applyEdgeFades_dc_second:
  "applyEdgeFades \<lparr>ab_sampleRate = 48000, ab_length = 48000,
       ab_channels = [replicate 48000 1]\<rparr> (1 / 100)
   = \<lparr>ab_sampleRate = 48000, ab_length = 48000,
       ab_channels = [fade_channel 48000 480 (replicate 48000 1)]\<rparr>"
  by (simp add: applyEdgeFades_def Let_def fade_len_dc_second)

lemma prepare_dc_second:
  "prepare_segment \<lparr>ab_sampleRate = 48000, ab_length = 48000,
       ab_channels = [replicate 48000 1]\<rparr> 0 1
   = \<lparr>ab_sampleRate = 48000, ab_length = 48000,
       ab_channels = [fade_channel 48000 480 (replicate 48000 1)]\<rparr>"
proof -
  have "prepare_segment \<lparr>ab_sampleRate = 48000, ab_length = 48000,
       ab_channels = [replicate 48000 1]\<rparr> 0 1
   = applyEdgeFades \<lparr>ab_sampleRate = 48000, ab_length = 48000,
       ab_channels = [replicate 48000 1]\<rparr> (1 / 100)"
    unfolding prepare_segment_def Let_def
    by (simp only: audio_buffer.simps) (simp add: subarray_dc_second)
  then show ?thesis by (simp only: applyEdgeFades_dc_second)
qed

text \<open>
  C2. The fade-in is as claimed, the fade-out is not: the second loop gives the
  \<^emph>\<open>last\<close> sample the gain \<open>1 - 0 / fadeN = 1\<close> and the sample \<open>fadeN\<close> places before
  the end the gain \<open>1 / fadeN\<close>, so the gain drops at the start of the tail and ramps
  up towards the end. On one second of a constant 1.0 at 48 kHz (\<open>fadeN = 480\<close>) the
  prepared segment starts with 0, but ends with 1; sample 47519 is 1 and sample
  47520 is \<open>1 / 480\<close>.
\<close>

theorem edge_fade_out_inverted:
  "hd (ab_channels (prepare_segment
      \<lparr>ab_sampleRate = 48000, ab_length = 48000, ab_channels = [replicate 48000 1]\<rparr> 0 1))
     ! 0 = 0
   \<and> hd (ab_channels (prepare_segment
      \<lparr>ab_sampleRate = 48000, ab_length = 48000, ab_channels = [replicate 48000 1]\<rparr> 0 1))
     ! 47999 = 1
   \<and> hd (ab_channels (prepare_segment
      \<lparr>ab_sampleRate = 48000, ab_length = 48000, ab_channels = [replicate 48000 1]\<rparr> 0 1))
     ! 47520 = 1 / 480
   \<and> hd (ab_channels (prepare_segment
      \<lparr>ab_sampleRate = 48000, ab_length = 48000, ab_channels = [replicate 48000 1]\<rparr> 0 1))
     ! 47519 = 1"
proof -
  define F where "F = fade_channel 48000 480 (replicate 48000 1)"
  have l: "length (replicate 48000 (1::real)) = 48000" by simp
  have f: "2 * nat 480 \<le> (48000::nat)" by simp
  have a: "F ! 0 = 0"
    unfolding F_def by (subst fade_channel_nth [OF l f]) simp_all
  have b: "F ! 47999 = 1"
    unfolding F_def by (subst fade_channel_nth [OF l f]) simp_all
  have c: "F ! 47520 = 1 / 480"
    unfolding F_def by (subst fade_channel_nth [OF l f]) simp_all
  have d: "F ! 47519 = 1"
    unfolding F_def by (subst fade_channel_nth [OF l f]) simp_all
  have h: "hd (ab_channels (prepare_segment
      \<lparr>ab_sampleRate = 48000, ab_length = 48000, ab_channels = [replicate 48000 1]\<rparr> 0 1)) = F"
    by (simp only: prepare_dc_second audio_buffer.simps list.sel F_def)
  show ?thesis by (simp only: h a b c d simp_thms)
qed

subsection \<open>Released voices\<close>

text \<open>
  Which voices and grains survive a tick depends neither on the samples read nor on
  the mix so far, so the voices after a block can be followed without the audio.
\<close>

lemma grain_tick_snd:
  "snd (grain_tick srcL srcR len mix g) = snd (grain_tick srcL' srcR' len mix' g)"
  by (simp add: grain_tick_def Let_def)

lemma grains_tick_Cons_snd:
  "snd (grains_tick srcL srcR len mix (g # gs)) =
      (case snd (grain_tick srcL srcR len (fst (grains_tick srcL srcR len mix gs)) g) of
         None \<Rightarrow> snd (grains_tick srcL srcR len mix gs)
       | Some h \<Rightarrow> h # snd (grains_tick srcL srcR len mix gs))"
  by (auto simp: Let_def split: prod.splits option.splits)

lemma grains_tick_snd:
  "snd (grains_tick srcL srcR len mix gs) = snd (grains_tick srcL' srcR' len mix' gs)"
proof (induction gs)
  case Nil
  show ?case by simp
next
  case (Cons g gs)
  have h: "snd (grain_tick srcL srcR len (fst (grains_tick srcL srcR len mix gs)) g)
      = snd (grain_tick srcL' srcR' len (fst (grains_tick srcL' srcR' len mix' gs)) g)"
    by (rule grain_tick_snd)
  show ?case
    unfolding grains_tick_Cons_snd h Cons ..
qed

lemma voices_tick_snd:
  "snd (voices_tick srcL srcR len mix vs) = snd (voices_tick srcL' srcR' len mix' vs)"
proof (induction vs arbitrary: mix mix')
  case Nil
  show ?case by simp
next
  case (Cons v vs)
  have g: "snd (grains_tick srcL srcR len mix (grains v))
         = snd (grains_tick srcL' srcR' len mix' (grains v))"
    by (rule grains_tick_snd)
  have t: "snd (voices_tick srcL srcR len (fst (grains_tick srcL srcR len mix (grains v))) vs)
      = snd (voices_tick srcL' srcR' len (fst (grains_tick srcL' srcR' len mix' (grains v))) vs)"
    by (rule Cons.IH)
  show ?case
    unfolding voices_tick_Cons_snd g t ..
qed


lemma sample_tick_voices_only:
  "voices (fst (sample_tick sr p)) = snd (voices_tick [] [] (plength p) (None, None) (voices p))"
  unfolding sample_tick_voices by (rule voices_tick_snd)

lemma render_voices:
  "voices (fst (render n sr p)) =
     ((\<lambda>vs. snd (voices_tick [] [] (plength p) (None, None) vs)) ^^ n) (voices p)"
proof (induction n arbitrary: p)
  case 0
  show ?case by simp
next
  case (Suc n)
  define f where "f = (\<lambda>vs. snd (voices_tick [] [] (plength p) (None, None) vs))"
  have l: "plength (fst (sample_tick sr p)) = plength p"
    using sample_tick_setup [of p sr] by (simp add: same_setup_def)
  have "voices (fst (render (Suc n) sr p)) = (f ^^ n) (f (voices p))"
    unfolding render_Suc_fst Suc.IH l sample_tick_voices_only f_def ..
  also have "\<dots> = (f ^^ Suc n) (voices p)"
    by (simp add: funpow_swap1)
  finally show ?case unfolding f_def .
qed

lemma funpow_numeral_unroll: "(f ^^ numeral k) x = (f ^^ pred_numeral k) (f x)"
  by (simp add: numeral_eq_Suc funpow_swap1)


lemma process_loaded:
  assumes "0 < plength p" and "bufL p \<noteq> []"
    and "schedule_all p (voices p) (grainSize prm) (clamp (overlap prm) 0 0.95)
           (clamp (jitter prm) 0 0.02) = Some (p1, vs1)"
  shows "process sr p prm q =
     Some \<lparr>state = (fst (render q sr (p1\<lparr>voices := vs1\<rparr>)))
                     \<lparr>voices := map (\<lambda>v. v\<lparr>vtime := vtime v + real q / sr\<rparr>)
                                  (voices (fst (render q sr (p1\<lparr>voices := vs1\<rparr>))))\<rparr>,
           outL = fst (snd (render q sr (p1\<lparr>voices := vs1\<rparr>))),
           outR = snd (snd (render q sr (p1\<lparr>voices := vs1\<rparr>))), ret = True\<rparr>"
  using assms
  by (cases "render q sr (p1\<lparr>voices := vs1\<rparr>)") (simp add: process_def Let_def)

lemma process_voices:
  assumes "0 < plength p" and "bufL p \<noteq> []"
    and "schedule_all p (voices p) (grainSize prm) (clamp (overlap prm) 0 0.95)
           (clamp (jitter prm) 0 0.02) = Some (p1, vs1)"
  shows "\<exists>r. process sr p prm q = Some r \<and>
     voices (state r) =
       map (\<lambda>v. v\<lparr>vtime := vtime v + real q / sr\<rparr>)
         (((\<lambda>vs. snd (voices_tick [] [] (plength p) (None, None) vs)) ^^ q) vs1)"
proof -
  have l: "plength p1 = plength p"
    using schedule_all_setup [OF assms(3)] by (simp add: same_setup_def)
  have "voices (fst (render q sr (p1\<lparr>voices := vs1\<rparr>))) =
     ((\<lambda>vs. snd (voices_tick [] [] (plength p) (None, None) vs)) ^^ q) vs1"
    by (simp add: render_voices l)
  then show ?thesis
    unfolding process_loaded [OF assms] by simp
qed

lemma tick_alive_step:
  assumes "gi g + 1 < glength g"
  shows "\<exists>g'. snd (voices_tick [] [] len (None, None) [v\<lparr>grains := [g]\<rparr>]) = [v\<lparr>grains := [g']\<rparr>]
           \<and> gi g' = gi g + 1 \<and> glength g' = glength g"
proof -
  define g' where "g' = g\<lparr>posL := wrap_pos len (posL g + grate g),
      posR := wrap_pos len (posR g + grate g), gi := gi g + 1\<rparr>"
  have "snd (voices_tick [] [] len (None, None) [v\<lparr>grains := [g]\<rparr>]) = [v\<lparr>grains := [g']\<rparr>]"
    using assms by (simp add: grain_tick_def Let_def g'_def)
  moreover have "gi g' = gi g + 1 \<and> glength g' = glength g" by (simp add: g'_def)
  ultimately show ?thesis by blast
qed

lemma ticks_alive:
  "gi g + int n < glength g \<Longrightarrow>
   \<exists>g'. ((\<lambda>vs. snd (voices_tick [] [] len (None, None) vs)) ^^ n) [v\<lparr>grains := [g]\<rparr>]
           = [v\<lparr>grains := [g']\<rparr>]
        \<and> gi g' = gi g + int n \<and> glength g' = glength g"
proof (induction n arbitrary: g)
  case 0
  show ?case by (rule exI [of _ g]) simp
next
  case (Suc n)
  define f where "f = (\<lambda>vs. snd (voices_tick [] [] len (None, None) vs))"
  from Suc.prems have "gi g + 1 < glength g" by simp
  from tick_alive_step [OF this, of len v]
  obtain g1 where g1: "f [v\<lparr>grains := [g]\<rparr>] = [v\<lparr>grains := [g1]\<rparr>]"
    "gi g1 = gi g + 1" "glength g1 = glength g"
    unfolding f_def by blast
  from Suc.prems g1 have "gi g1 + int n < glength g1" by simp
  from Suc.IH [OF this]
  obtain g' where g': "(f ^^ n) [v\<lparr>grains := [g1]\<rparr>] = [v\<lparr>grains := [g']\<rparr>]"
    "gi g' = gi g1 + int n" "glength g' = glength g1"
    unfolding f_def by blast
  have "(f ^^ Suc n) [v\<lparr>grains := [g]\<rparr>] = (f ^^ n) (f [v\<lparr>grains := [g]\<rparr>])"
    by (simp add: funpow_swap1)
  then have "(f ^^ Suc n) [v\<lparr>grains := [g]\<rparr>] = [v\<lparr>grains := [g']\<rparr>]
      \<and> gi g' = gi g + int (Suc n) \<and> glength g' = glength g"
    using g1 g' by simp
  then show ?case unfolding f_def by blast
qed

text \<open>
  C1. Step 1 of \<open>process\<close> schedules grains for every voice of the map and never
  looks at \<open>on\<close>. After \<open>loadBuffer\<close>, \<open>noteOn\<close> and \<open>noteOff\<close> for the same id, the voice
  is released and has no grain; the next block of 128 frames nevertheless gives it a
  new grain of 1920 frames, and at the end of the block the voice is still in the
  pool, released, with that grain 128 frames into its window.
\<close>

theorem released_voice_gets_grain:
  "\<exists>p r. run 48000 constructor
        [Msg (LoadBuffer (Some 48000) [replicate 48000 0]),
         Msg (NoteOn (Some 1) (Some 1) (Some 1)),
         Msg (NoteOff (Some 1))] = Some p
     \<and> map von (voices p) = [False] \<and> map grains (voices p) = [[]]
     \<and> process 48000 p \<lparr>grainSize = 4 / 100, overlap = 1 / 2, jitter = 2 / 1000\<rparr> 128 = Some r
     \<and> map von (voices (state r)) = [False]
     \<and> map (\<lambda>v. map gi (grains v)) (voices (state r)) = [[128]]
     \<and> map (\<lambda>v. map glength (grains v)) (voices (state r)) = [[1920]]"
proof -
  define p where "p = handleMessage (handleMessage (handleMessage constructor
      (LoadBuffer (Some 48000) [replicate 48000 0])) (NoteOn (Some 1) (Some 1) (Some 1)))
      (NoteOff (Some 1))"
  define v where "v = \<lparr>vid = 1, vrate = 1, vgain = 1, von = False, vtime = 0,
      nextGrainAt = 0, grains = []\<rparr>"
  define prm where "prm = \<lparr>grainSize = 4 / 100, overlap = 1 / 2, jitter = 2 / 1000\<rparr>"
  define gs :: real where "gs = 4 / 100"
  define ov :: real where "ov = 1 / 2"
  define js :: real where "js = 2 / 1000"
  define p1 where "p1 = fst (scheduleGrainForVoice p v gs ov js)"
  define v1 where "v1 = snd (scheduleGrainForVoice p v gs ov js)"
  have r: "run 48000 constructor
        [Msg (LoadBuffer (Some 48000) [replicate 48000 0]),
         Msg (NoteOn (Some 1) (Some 1) (Some 1)),
         Msg (NoteOff (Some 1))] = Some p"
    by (simp add: p_def)
  have vs: "voices p = [v]" and L: "plength p = 48000" and b: "bufL p \<noteq> []"
    and sr: "sampleRateSrc p = 48000"
    by (simp_all add: p_def v_def constructor_def new_voice_def release_def to_int32_def Let_def)
  have L1: "plength p1 = 48000"
    unfolding p1_def scheduleGrainForVoice_plength L ..
  obtain g where g: "grains v1 = [g]" "gi g = 0" "glength g = 1920"
    using scheduleGrainForVoice_grains [of p v gs ov js]
    by (simp add: v1_def L sr v_def new_grain_def grainFrames_def gs_def)
  have v1: "von v1 = False" "vtime v1 = 0" "nextGrainAt v1 = 2 / 100"
    by (simp_all add: v1_def scheduleGrainForVoice_def L v_def Let_def intervalSec_def
        gs_def ov_def split: prod.splits)
  have c0: "nextGrainAt v \<le> vtime v + 1 / 1000000" by (simp add: v_def)
  have c1: "\<not> nextGrainAt v1 \<le> vtime v1 + 1 / 1000000" by (simp add: v1)
  have np: "\<not> plength p \<le> 0" by (simp add: L)
  have lp1: "schedule_loop p1 v1 gs ov js = Some (p1, v1)"
    by (subst schedule_loop.simps) (simp only: c1 if_False)
  have lp: "schedule_loop p v gs ov js = Some (p1, v1)"
    by (subst schedule_loop.simps)
       (simp only: c0 np if_True if_False p1_def [symmetric] v1_def [symmetric] lp1)
  have v0: "(if vtime v = 0 then v\<lparr>nextGrainAt := 0\<rparr> else v) = v" by (simp add: v_def)
  have cl: "clamp (overlap prm) 0 0.95 = ov" "clamp (jitter prm) 0 0.02 = js"
    "grainSize prm = gs"
    by (simp_all add: prm_def clamp_def gs_def ov_def js_def)
  have sv: "schedule_voice p v gs ov js = Some (p1, v1)"
    unfolding schedule_voice_def by (simp only: c0 if_True v0 lp)
  have s: "schedule_all p (voices p) (grainSize prm) (clamp (overlap prm) 0 0.95)
      (clamp (jitter prm) 0 0.02) = Some (p1, [v1])"
    unfolding cl vs by (simp add: sv)
  from process_voices [OF _ b s, of 48000 128] L
  obtain r where pr: "process 48000 p prm 128 = Some r"
    and vr: "voices (state r) = map (\<lambda>v. v\<lparr>vtime := vtime v + real 128 / 48000\<rparr>)
         (((\<lambda>vs. snd (voices_tick [] [] 48000 (None, None) vs)) ^^ 128) [v1])"
    by auto
  have "gi g + int 128 < glength g" using g by simp
  from ticks_alive [OF this, of 48000 v1]
  obtain g' where g': "((\<lambda>vs. snd (voices_tick [] [] 48000 (None, None) vs)) ^^ 128)
      [v1\<lparr>grains := [g]\<rparr>] = [v1\<lparr>grains := [g']\<rparr>]" "gi g' = 128" "glength g' = 1920"
    using g by auto
  have "v1\<lparr>grains := [g]\<rparr> = v1" using g(1) by simp
  with g' vr have "voices (state r) = [v1\<lparr>grains := [g'], vtime := vtime v1 + real 128 / 48000\<rparr>]"
    by simp
  then have f1: "map von (voices (state r)) = [False]"
    "map (\<lambda>v. map gi (grains v)) (voices (state r)) = [[128]]"
    "map (\<lambda>v. map glength (grains v)) (voices (state r)) = [[1920]]"
    using g' v1 by simp_all
  have f2: "map von (voices p) = [False]" "map grains (voices p) = [[]]"
    by (simp_all add: vs v_def)
  show ?thesis
    by (rule exI [of _ p], rule exI [of _ r])
       (simp only: r f1 f2 pr [unfolded prm_def] simp_thms)
qed

subsection \<open>The interval between the grains of a voice\<close>


lemma tick_empty:
  "von v \<Longrightarrow> grains v = [] \<Longrightarrow> snd (voices_tick [] [] len (None, None) [v]) = [v]"
  by simp























subsection \<open>Reads at the wrapped position\<close>

lemma sample_tick_proj:
  "sample_tick sr p =
     (p\<lparr>voices := snd (voices_tick (bufL p) (bufR p) (plength p) (Some 0, Some 0) (voices p)),
        eqStateL := snd (applyEQ p (fst (fst (voices_tick (bufL p) (bufR p) (plength p)
                      (Some 0, Some 0) (voices p)))) (eqStateL p) sr),
        eqStateR := snd (applyEQ p (snd (fst (voices_tick (bufL p) (bufR p) (plength p)
                      (Some 0, Some 0) (voices p)))) (eqStateR p) sr)\<rparr>,
      fst (applyEQ p (fst (fst (voices_tick (bufL p) (bufR p) (plength p)
                      (Some 0, Some 0) (voices p)))) (eqStateL p) sr),
      fst (applyEQ p (snd (fst (voices_tick (bufL p) (bufR p) (plength p)
                      (Some 0, Some 0) (voices p)))) (eqStateR p) sr))"
  by (simp add: sample_tick_def Let_def split: prod.splits)

lemma render_Suc:
  "render (Suc n) sr p =
     (fst (render n sr (fst (sample_tick sr p))),
      fst (snd (sample_tick sr p)) # fst (snd (render n sr (fst (sample_tick sr p)))),
      snd (snd (sample_tick sr p)) # snd (snd (render n sr (fst (sample_tick sr p)))))"
  by (simp add: Let_def split: prod.splits)

lemma applyEQ_None: "applyEQ p None st sr = (None, \<lparr>lp = None, hp = None\<rparr>)"
  by (simp add: applyEQ_def Let_def)

lemma applyEQ_poisoned:
  "lp st = None \<Longrightarrow> fst (applyEQ p x st sr) = None \<and> lp (snd (applyEQ p x st sr)) = None"
  by (cases x) (simp_all add: applyEQ_def Let_def)

lemma sample_tick_poisoned:
  "lp (eqStateL p) = None \<Longrightarrow>
   fst (snd (sample_tick sr p)) = None \<and> lp (eqStateL (fst (sample_tick sr p))) = None"
  by (simp add: sample_tick_proj applyEQ_poisoned)

lemma render_poisoned:
  "lp (eqStateL p) = None \<Longrightarrow>
   lp (eqStateL (fst (render n sr p))) = None \<and> fst (snd (render n sr p)) = replicate n None"
proof (induction n arbitrary: p)
  case 0
  then show ?case by simp
next
  case (Suc n)
  from sample_tick_poisoned [OF Suc.prems, of sr]
  have a: "fst (snd (sample_tick sr p)) = None" "lp (eqStateL (fst (sample_tick sr p))) = None"
    by simp_all
  from Suc.IH [OF a(2)] a(1) show ?case
    unfolding render_Suc by simp
qed


lemma grain_start_short:
  "len - grainFrames gsz sr - 1 < 0 \<Longrightarrow> grain_start len sr gsz js u w = 0"
  by (simp add: grain_start_def clampInt_def Let_def max_def min_def to_int32_def)

text \<open>
  C7. The read interpolates between \<open>floor pos\<close> and the next index as claimed, but
  the position is wrapped by a single subtraction of the segment length, which is
  the position modulo the length only while the rate does not exceed the length.
  With a segment of 2 frames and a voice of rate 4, the grain starts at 0, moves to
  4 and is wrapped to 2: the second sample of the block reads index 2 of a 2-frame
  buffer. The read yields no sample (\<open>undefined\<close> in the source), the mix and both
  filter states become NaN, and so does every later output sample of the block.
\<close>

theorem short_segment_read_out_of_range:
  "\<exists>p r. run 48000 constructor
        [Msg (LoadBuffer (Some 48000) [[1 / 2, 1 / 4]]),
         Msg (NoteOn (Some 1) (Some 4) (Some 1))] = Some p
     \<and> plength p = 2 \<and> bufL p = [1 / 2, 1 / 4] \<and> map vrate (voices p) = [4]
     \<and> readInterp (bufL p) 2 = None
     \<and> process 48000 p \<lparr>grainSize = 4 / 100, overlap = 1 / 2, jitter = 2 / 1000\<rparr> 128 = Some r
     \<and> outL r = Some 0 # replicate 127 None
     \<and> lp (eqStateL (state r)) = None"
proof -
  define p where "p = handleMessage (handleMessage constructor
      (LoadBuffer (Some 48000) [[1 / 2, 1 / 4]])) (NoteOn (Some 1) (Some 4) (Some 1))"
  define v where "v = \<lparr>vid = 1, vrate = 4, vgain = 1, von = True, vtime = 0,
      nextGrainAt = 0, grains = []\<rparr>"
  define prm where "prm = \<lparr>grainSize = 4 / 100, overlap = 1 / 2, jitter = 2 / 1000\<rparr>"
  define gs :: real where "gs = 4 / 100"
  define ov :: real where "ov = 1 / 2"
  define js :: real where "js = 2 / 1000"
  define p1 where "p1 = fst (scheduleGrainForVoice p v gs ov js)"
  define v1 where "v1 = snd (scheduleGrainForVoice p v gs ov js)"
  define g0 where "g0 = \<lparr>posL = 0, posR = 0, glength = 1920, gi = 0, grate = 4, ggain = 1\<rparr>"
  define g1 where "g1 = \<lparr>posL = 2, posR = 2, glength = 1920, gi = 1, grate = 4, ggain = 1\<rparr>"
  have r: "run 48000 constructor
        [Msg (LoadBuffer (Some 48000) [[1 / 2, 1 / 4]]),
         Msg (NoteOn (Some 1) (Some 4) (Some 1))] = Some p"
    by (simp add: p_def)
  have vs: "voices p = [v]" and L: "plength p = 2" and b: "bufL p = [1 / 2, 1 / 4]"
    and bR: "bufR p = [1 / 2, 1 / 4]"
    and sr: "sampleRateSrc p = 48000"
    and eq: "eqStateL p = \<lparr>lp = Some 0, hp = Some 0\<rparr>"
    by (simp_all add: p_def v_def constructor_def new_voice_def to_int32_def Let_def)
  have gf: "grainFrames gs 48000 = 1920" by (simp add: grainFrames_def gs_def)
  have st: "grain_start 2 48000 gs js u w = 0" for u w
    by (rule grain_start_short) (simp add: gf)
  have iv: "intervalSec gs ov = 2 / 100" by (simp add: intervalSec_def gs_def ov_def)
  have v1: "v1 = v\<lparr>grains := [g0], nextGrainAt := 2 / 100\<rparr>"
    by (simp add: v1_def scheduleGrainForVoice_def L sr Let_def split_def st gf new_grain_def
        g0_def v_def iv)
  have su: "same_setup p p1" unfolding p1_def by (rule scheduleGrainForVoice_setup)
  have e1: "eqStateL p1 = \<lparr>lp = Some 0, hp = Some 0\<rparr>"
    by (simp add: p1_def scheduleGrainForVoice_def L Let_def split_def eq)
  have c0: "nextGrainAt v \<le> vtime v + 1 / 1000000" by (simp add: v_def)
  have c1: "\<not> nextGrainAt v1 \<le> vtime v1 + 1 / 1000000" by (simp add: v1 v_def)
  have np: "\<not> plength p \<le> 0" by (simp add: L)
  have lp1: "schedule_loop p1 v1 gs ov js = Some (p1, v1)"
    by (subst schedule_loop.simps) (simp only: c1 if_False)
  have lp: "schedule_loop p v gs ov js = Some (p1, v1)"
    by (subst schedule_loop.simps)
       (simp only: c0 np if_True if_False p1_def [symmetric] v1_def [symmetric] lp1)
  have v0: "(if vtime v = 0 then v\<lparr>nextGrainAt := 0\<rparr> else v) = v" by (simp add: v_def)
  have cl: "clamp (overlap prm) 0 0.95 = ov" "clamp (jitter prm) 0 0.02 = js"
    "grainSize prm = gs"
    by (simp_all add: prm_def clamp_def gs_def ov_def js_def)
  have sv: "schedule_voice p v gs ov js = Some (p1, v1)"
    unfolding schedule_voice_def by (simp only: c0 if_True v0 lp)
  have s: "schedule_all p (voices p) (grainSize prm) (clamp (overlap prm) 0 0.95)
      (clamp (jitter prm) 0 0.02) = Some (p1, [v1])"
    unfolding cl vs by (simp add: sv)
  define q0 where "q0 = p1\<lparr>voices := [v1]\<rparr>"
  have q0: "bufL q0 = [1 / 2, 1 / 4]" "bufR q0 = [1 / 2, 1 / 4]" "plength q0 = 2"
    "voices q0 = [v1]" "eqStateL q0 = \<lparr>lp = Some 0, hp = Some 0\<rparr>"
    using su by (simp_all add: q0_def same_setup_def b bR L e1)
  define q1 where "q1 = fst (sample_tick 48000 q0)"
  have t0: "voices_tick [1 / 2, 1 / 4] [1 / 2, 1 / 4] 2 (Some 0, Some 0) [v1]
      = ((Some 0, Some 0), [v1\<lparr>grains := [g1]\<rparr>])"
    by (simp add: v1 g0_def g1_def grain_tick_def readInterp_def buf_get_def hann_def
        wrap_pos_def Let_def v_def)
  have o0: "fst (snd (sample_tick 48000 q0)) = Some 0"
    unfolding sample_tick_proj q0 t0 by (simp add: applyEQ_def Let_def)
  have q1: "bufL q1 = [1 / 2, 1 / 4]" "bufR q1 = [1 / 2, 1 / 4]" "plength q1 = 2"
    "voices q1 = [v1\<lparr>grains := [g1]\<rparr>]"
    unfolding q1_def sample_tick_proj q0(1-4) t0 by (simp_all add: q0)
  have ri: "readInterp [1 / 2, 1 / 4] 2 = None"
    by (simp add: readInterp_def buf_get_def Let_def)
  have t1: "fst (fst (voices_tick [1 / 2, 1 / 4] [1 / 2, 1 / 4] 2 (Some 0, Some 0)
        [v1\<lparr>grains := [g1]\<rparr>])) = None"
    by (simp add: g1_def grain_tick_def ri Let_def)
  have o1: "fst (snd (sample_tick 48000 q1)) = None"
    and e2: "lp (eqStateL (fst (sample_tick 48000 q1))) = None"
    unfolding sample_tick_proj q1 t1 by (simp_all add: applyEQ_None)
  from render_poisoned [OF e2, of 126 48000]
  have rest: "lp (eqStateL (fst (render 126 48000 (fst (sample_tick 48000 q1))))) = None"
    "fst (snd (render 126 48000 (fst (sample_tick 48000 q1)))) = replicate 126 None"
    by simp_all
  have n128: "(128::nat) = Suc (Suc 126)" and n127: "(127::nat) = Suc 126" by simp_all
  have o0': "fst (snd (sample_tick 48000 q0)) = Some 0" by (rule o0)
  have o1': "fst (snd (sample_tick 48000 (fst (sample_tick 48000 q0)))) = None"
    using o1 unfolding q1_def .
  have rest': "lp (eqStateL (fst (render 126 48000
        (fst (sample_tick 48000 (fst (sample_tick 48000 q0))))))) = None"
    "fst (snd (render 126 48000 (fst (sample_tick 48000 (fst (sample_tick 48000 q0))))))
       = replicate 126 None"
    using rest unfolding q1_def .
  have out: "fst (snd (render 128 48000 q0)) = Some 0 # replicate 127 None"
    unfolding n128 n127 render_Suc replicate_Suc fst_conv snd_conv o0' o1' rest' ..
  have est: "lp (eqStateL (fst (render 128 48000 q0))) = None"
    unfolding n128 render_Suc fst_conv snd_conv by (rule rest'(1))
  have pl: "0 < plength p" and bn: "bufL p \<noteq> []" by (simp_all add: L b)
  define R where "R = \<lparr>state = (fst (render 128 48000 q0))
                     \<lparr>voices := map (\<lambda>v. v\<lparr>vtime := vtime v + real 128 / 48000\<rparr>)
                                  (voices (fst (render 128 48000 q0)))\<rparr>,
           outL = fst (snd (render 128 48000 q0)),
           outR = snd (snd (render 128 48000 q0)), ret = True\<rparr>"
  have pr: "process 48000 p prm 128 = Some R"
    unfolding R_def q0_def by (rule process_loaded [OF pl bn s])
  have f: "map vrate (voices p) = [4]" "outL R = Some 0 # replicate 127 None"
    "lp (eqStateL (state R)) = None"
    by (simp_all add: vs v_def R_def out est)
  have f4: "readInterp (bufL p) 2 = None" unfolding b by (rule ri)
  show ?thesis
    by (rule exI [of _ p], rule exI [of _ R])
       (simp only: r L f f4 pr [unfolded prm_def] simp_thms, simp only: b simp_thms)
qed

subsection \<open>Note-on at the control interface\<close>

lemma ran_del_inj:
  assumes "inj_on f (dom f)" and "f a = Some b"
  shows "ran (f(a := None)) = ran f - {b}"
proof (intro set_eqI iffI)
  fix y assume "y \<in> ran (f(a := None))"
  then obtain x where x: "x \<noteq> a" "f x = Some y" by (auto simp: ran_def split: if_splits)
  have "y \<noteq> b"
  proof
    assume "y = b"
    with x assms(2) have "f x = f a" by simp
    moreover have "x \<in> dom f" "a \<in> dom f" using x assms(2) by auto
    ultimately have "x = a" using assms(1) by (auto dest: inj_onD)
    with x(1) show False by simp
  qed
  with x show "y \<in> ran f - {b}" by (auto simp: ran_def)
next
  fix y assume "y \<in> ran f - {b}"
  then obtain x where x: "f x = Some y" "y \<noteq> b" by (auto simp: ran_def)
  with assms(2) have "x \<noteq> a" by auto
  with x show "y \<in> ran (f(a := None))" by (auto simp: ran_def)
qed

lemma inj_del: "inj_on f (dom f) \<Longrightarrow> inj_on (f(a := None)) (dom (f(a := None)))"
  by (auto simp: inj_on_def dom_def split: if_splits)

lemma inj_upd_fresh:
  assumes "inj_on f (dom f)" and "b \<notin> ran f"
  shows "inj_on (f(a \<mapsto> b)) (dom (f(a \<mapsto> b)))"
proof (rule inj_onI)
  fix x y
  assume "x \<in> dom (f(a \<mapsto> b))" "y \<in> dom (f(a \<mapsto> b))" and e: "(f(a \<mapsto> b)) x = (f(a \<mapsto> b)) y"
  show "x = y"
  proof (cases "x = a")
    case True
    show ?thesis
    proof (cases "y = a")
      case True
      with \<open>x = a\<close> show ?thesis by simp
    next
      case False
      with True e have "f y = Some b" by simp
      with assms(2) show ?thesis by (auto simp: ran_def)
    qed
  next
    case False
    show ?thesis
    proof (cases "y = a")
      case True
      with False e have "f x = Some b" by simp
      with assms(2) show ?thesis by (auto simp: ran_def)
    next
      case y: False
      with False e have "f x = f y" by simp
      moreover have "x \<in> dom f" "y \<in> dom f"
        using False y \<open>x \<in> dom (f(a \<mapsto> b))\<close> \<open>y \<in> dom (f(a \<mapsto> b))\<close> by auto
      ultimately show ?thesis using assms(1) by (auto dest: inj_onD)
    qed
  qed
qed

lemma ran_upd_del: "ran (f(a \<mapsto> b)) = insert b (ran (f(a := None)))"
proof -
  have "(f(a := None))(a \<mapsto> b) = f(a \<mapsto> b)" by simp
  moreover have "ran ((f(a := None))(a \<mapsto> b)) = insert b (ran (f(a := None)))"
    by (rule ran_map_upd) simp
  ultimately show ?thesis by simp
qed

lemma noteOn_eq:
  "idc c + 1 < 2 ^ 32 \<Longrightarrow>
   noteOn c midi vel =
     (c\<lparr>idc := idc c + 1, active := (active c)(midi \<mapsto> idc c + 1)\<rparr>,
      (case active c midi of None \<Rightarrow> [] | Some old \<Rightarrow> [NoteOff (Some old)]) @
      [NoteOn (Some (idc c + 1))
         (Some (2 powr ((real_of_int midi - baseNote c + transpose c) / 12)))
         (Some (clamp (case vel of None \<Rightarrow> 0.9 | Some x \<Rightarrow> x) 0.001 1))])"
  by (simp add: noteOn_def noteOff_def idGen_def midiToPlaybackRate_def Let_def
      split: option.splits)


lemma ctl_inv_fresh: "ctl_inv c \<Longrightarrow> idc c + 1 \<notin> ran (active c)"
  by (fastforce simp: ctl_inv_def ran_def)

lemma do_call_inv:
  assumes "ctl_inv c" and "idc c + 1 < 2 ^ 32"
  shows "ctl_inv (fst (do_call c x))
     \<and> idc c \<le> idc (fst (do_call c x)) \<and> idc (fst (do_call c x)) \<le> idc c + 1
     \<and> foldl sounding_step (ran (active c)) (snd (do_call c x)) = ran (active (fst (do_call c x)))
     \<and> (\<forall>i \<in> set (on_ids (snd (do_call c x))). idc c < i \<and> i \<le> idc (fst (do_call c x)))
     \<and> distinct (on_ids (snd (do_call c x)))"
proof (cases x)
  case (CallOff midi)
  show ?thesis
  proof (cases "active c midi")
    case None
    then show ?thesis using CallOff assms by (simp add: noteOff_def on_ids_def)
  next
    case (Some i)
    have "inj_on (active c) (dom (active c))" using assms(1) by (simp add: ctl_inv_def)
    from ran_del_inj [OF this Some] inj_del [OF this, of midi]
    show ?thesis
      using CallOff Some assms by (simp add: noteOff_def on_ids_def ctl_inv_def)
  qed
next
  case (CallSet tr fs br)
  then show ?thesis using assms by (simp add: setParams_def Let_def on_ids_def ctl_inv_def)
next
  case (CallOn midi vel)
  define f where "f = (active c)(midi := None)"
  have inj: "inj_on (active c) (dom (active c))" using assms(1) by (simp add: ctl_inv_def)
  have le: "\<And>m i. active c m = Some i \<Longrightarrow> i \<le> idc c" using assms(1) by (simp add: ctl_inv_def)
  have injf: "inj_on f (dom f)" unfolding f_def by (rule inj_del [OF inj])
  have "ran f \<subseteq> ran (active c)" by (auto simp: f_def ran_def split: if_splits)
  with ctl_inv_fresh [OF assms(1)] have fr: "idc c + 1 \<notin> ran f" by auto
  have u: "(active c)(midi \<mapsto> idc c + 1) = f(midi \<mapsto> idc c + 1)" by (simp add: f_def)
  have i2: "inj_on ((active c)(midi \<mapsto> idc c + 1)) (dom ((active c)(midi \<mapsto> idc c + 1)))"
    unfolding u by (rule inj_upd_fresh [OF injf fr])
  have l2: "\<And>m i. ((active c)(midi \<mapsto> idc c + 1)) m = Some i \<Longrightarrow> i \<le> idc c + 1"
    using le by (auto split: if_splits intro: le_SucI)
  have r2: "ran ((active c)(midi \<mapsto> idc c + 1)) = insert (idc c + 1) (ran f)"
    unfolding f_def by (rule ran_upd_del)
  have s: "foldl sounding_step (ran (active c))
      ((case active c midi of None \<Rightarrow> [] | Some old \<Rightarrow> [NoteOff (Some old)]) @
       [NoteOn (Some (idc c + 1)) r g]) = insert (idc c + 1) (ran f)" for r g
  proof (cases "active c midi")
    case None
    then have "f = active c" by (auto simp: f_def)
    then show ?thesis using None by simp
  next
    case (Some old)
    from ran_del_inj [OF inj Some] show ?thesis using Some by (simp add: f_def)
  qed
  have o: "on_ids ((case active c midi of None \<Rightarrow> [] | Some old \<Rightarrow> [NoteOff (Some old)]) @
       [NoteOn (Some (idc c + 1)) r g]) = [idc c + 1]" for r g
    by (cases "active c midi") (simp_all add: on_ids_def)
  show ?thesis
    unfolding CallOn do_call.simps noteOn_eq [OF assms(2)] fst_conv snd_conv s o r2 [symmetric]
    using i2 l2 by (simp add: ctl_inv_def)
qed


lemma on_ids_append: "on_ids (xs @ ys) = on_ids xs @ on_ids ys"
  by (simp add: on_ids_def)

lemma calls_inv:
  "ctl_inv c \<Longrightarrow> idc c + length xs < 2 ^ 32 \<Longrightarrow>
   ctl_inv (fst (calls c xs))
     \<and> idc c \<le> idc (fst (calls c xs)) \<and> idc (fst (calls c xs)) \<le> idc c + length xs
     \<and> foldl sounding_step (ran (active c)) (snd (calls c xs)) = ran (active (fst (calls c xs)))
     \<and> (\<forall>i \<in> set (on_ids (snd (calls c xs))). idc c < i \<and> i \<le> idc (fst (calls c xs)))
     \<and> distinct (on_ids (snd (calls c xs)))"
proof (induction xs arbitrary: c)
  case Nil
  then show ?case by (simp add: on_ids_def)
next
  case (Cons x xs)
  define c1 where "c1 = fst (do_call c x)"
  define m1 where "m1 = snd (do_call c x)"
  define c2 where "c2 = fst (calls c1 xs)"
  define m2 where "m2 = snd (calls c1 xs)"
  from Cons.prems(2) have b: "idc c + 1 < 2 ^ 32" by simp
  from do_call_inv [OF Cons.prems(1) b, of x]
  have d: "ctl_inv c1" "idc c \<le> idc c1" "idc c1 \<le> idc c + 1"
    "foldl sounding_step (ran (active c)) m1 = ran (active c1)"
    "\<forall>i \<in> set (on_ids m1). idc c < i \<and> i \<le> idc c1" "distinct (on_ids m1)"
    by (simp_all add: c1_def m1_def)
  from d(3) Cons.prems(2) have "idc c1 + length xs < 2 ^ 32" by simp
  from Cons.IH [OF d(1) this]
  have e: "ctl_inv c2" "idc c1 \<le> idc c2" "idc c2 \<le> idc c1 + length xs"
    "foldl sounding_step (ran (active c1)) m2 = ran (active c2)"
    "\<forall>i \<in> set (on_ids m2). idc c1 < i \<and> i \<le> idc c2" "distinct (on_ids m2)"
    by (simp_all add: c2_def m2_def)
  have r: "fst (calls c (x # xs)) = c2" "snd (calls c (x # xs)) = m1 @ m2"
    by (simp_all add: c1_def m1_def c2_def m2_def)
  have dj: "set (on_ids m1) \<inter> set (on_ids m2) = {}"
    using d(5) e(5) by fastforce
  have "\<forall>i \<in> set (on_ids (m1 @ m2)). idc c < i \<and> i \<le> idc c2"
    using d(2,5) e(2,5) by (fastforce simp: on_ids_append)
  moreover have "distinct (on_ids (m1 @ m2))"
    using d(6) e(6) dj by (simp add: on_ids_append)
  moreover have "foldl sounding_step (ran (active c)) (m1 @ m2) = ran (active c2)"
    using d(4) e(4) by simp
  moreover have "idc c \<le> idc c2" "idc c2 \<le> idc c + length (x # xs)"
    using d(2,3) e(2,3) by simp_all
  ultimately show ?case unfolding r using e(1) by simp
qed

text \<open>
  The voices that the processor holds switched on after a list of messages are among
  those that \<open>sounding\<close> counts (the processor drops a \<open>noteOn\<close> at capacity, and
  rendering only removes voices).
\<close>

lemma set_map_set: "set (map_set vs v) \<subseteq> insert v (set vs)"
  by (induction vs) auto

lemma sounding_step_mono: "A \<subseteq> B \<Longrightarrow> sounding_step A m \<subseteq> sounding_step B m"
  by (cases "(A, m)" rule: sounding_step.cases) auto

lemma handleMessage_on:
  "vid ` {v \<in> set (voices (handleMessage p m)). von v}
     \<subseteq> sounding_step (vid ` {v \<in> set (voices p). von v}) m"
proof (cases m)
  case (NoteOn i r g)
  show ?thesis
  proof (cases i)
    case None
    then show ?thesis using NoteOn by simp
  next
    case (Some k)
    define nv where "nv = new_voice k (case r of None \<Rightarrow> 1 | Some x \<Rightarrow> x)
              (case g of None \<Rightarrow> 0.9 | Some x \<Rightarrow> x)"
    have k: "vid nv = k" by (simp add: nv_def new_voice_def)
    show ?thesis
    proof (cases "maxVoices p \<le> length (voices p)")
      case True
      then have "handleMessage p m = p" using NoteOn by simp
      then show ?thesis using NoteOn Some by auto
    next
      case False
      then have v: "voices (handleMessage p m) = map_set (voices p) nv"
        using NoteOn Some by (simp add: nv_def)
      have "{v \<in> set (map_set (voices p) nv). von v} \<subseteq> insert nv {v \<in> set (voices p). von v}"
        using set_map_set [of "voices p" nv] by blast
      then have "vid ` {v \<in> set (map_set (voices p) nv). von v}
           \<subseteq> vid ` insert nv {v \<in> set (voices p). von v}"
        by (rule image_mono)
      then have "vid ` {v \<in> set (voices (handleMessage p m)). von v}
           \<subseteq> insert k (vid ` {v \<in> set (voices p). von v})"
        by (simp add: v k)
      then show ?thesis by (simp add: NoteOn Some)
    qed
  qed
next
  case (NoteOff i)
  show ?thesis
  proof (cases i)
    case None
    then show ?thesis using NoteOff by simp
  next
    case (Some k)
    have "vid ` {v \<in> set (map (release k) (voices p)). von v}
        \<subseteq> vid ` {v \<in> set (voices p). von v} - {k}"
    proof
      fix x assume "x \<in> vid ` {v \<in> set (map (release k) (voices p)). von v}"
      then obtain w where w: "w \<in> set (voices p)" "von (release k w)" "x = vid (release k w)"
        by auto
      then have "vid w \<noteq> k" "von w" "x = vid w"
        by (auto simp: release_def split: if_splits)
      with w(1) show "x \<in> vid ` {v \<in> set (voices p). von v} - {k}" by auto
    qed
    then show ?thesis using NoteOff Some by simp
  qed
next
  case (LoadBuffer sr chans)
  then show ?thesis by (simp add: Let_def split: list.splits)
next
  case (SetParams t b)
  then show ?thesis by (simp add: Let_def split: option.splits)
next
  case Other
  then show ?thesis by simp
qed

lemma sounding_covers_engine:
  "vid ` {v \<in> set (voices p). von v} \<subseteq> S \<Longrightarrow>
   vid ` {v \<in> set (voices (foldl handleMessage p ms)). von v} \<subseteq> foldl sounding_step S ms"
proof (induction ms arbitrary: p S)
  case Nil
  then show ?case by simp
next
  case (Cons m ms)
  have "vid ` {v \<in> set (voices (handleMessage p m)). von v} \<subseteq> sounding_step S m"
    using handleMessage_on [of p m] sounding_step_mono [OF Cons.prems, of m] by blast
  from Cons.IH [OF this] show ?case by simp
qed

text \<open>
  C8. In any state the instrument reaches from its creation by fewer than
  \<open>2 ^ 32 - 2\<close> calls (before the 32-bit id counter can wrap), \<open>noteOn (pitch, velocity)\<close>
  forwards a \<open>noteOn\<close> message with rate \<open>2 powr ((pitch - baseNote + transpose) / 12)\<close>
  and gain \<open>clamp (velocity, 0.001, 1)\<close> (velocity 0.9 when omitted) under the id
  \<open>idc + 1\<close>, which no earlier \<open>noteOn\<close> message carried and no pitch holds; if the
  pitch had an active voice, the \<open>noteOff\<close> for its id is forwarded first. The ids that
  the forwarded messages leave switched on are exactly the ids of \<open>active\<close>, and no
  two pitches share one: one voice per active pitch, and distinct pitches sound
  together.
\<close>

theorem control_noteOn:
  assumes "calls (makeInstrument base) cs = (c, ms)" and "length cs + 2 < 2 ^ 32"
  shows "noteOn c midi vel =
     (c\<lparr>idc := idc c + 1, active := (active c)(midi \<mapsto> idc c + 1)\<rparr>,
      (case active c midi of None \<Rightarrow> [] | Some old \<Rightarrow> [NoteOff (Some old)]) @
      [NoteOn (Some (idc c + 1))
         (Some (2 powr ((real_of_int midi - baseNote c + transpose c) / 12)))
         (Some (clamp (case vel of None \<Rightarrow> 0.9 | Some x \<Rightarrow> x) 0.001 1))])
   \<and> idc c + 1 \<notin> set (on_ids ms) \<and> idc c + 1 \<notin> ran (active c)
   \<and> distinct (on_ids ms)
   \<and> sounding ms = ran (active c)
   \<and> inj_on (active c) (dom (active c))"
proof -
  have i0: "ctl_inv (makeInstrument base)"
    by (simp add: ctl_inv_def makeInstrument_def)
  have b0: "idc (makeInstrument base) + length cs < 2 ^ 32"
    using assms(2) by (simp add: makeInstrument_def)
  from calls_inv [OF i0 b0] assms(1)
  have f: "ctl_inv c" "idc c \<le> idc (makeInstrument base) + length cs"
    "foldl sounding_step (ran (active (makeInstrument base))) ms = ran (active c)"
    "\<forall>i \<in> set (on_ids ms). i \<le> idc c" "distinct (on_ids ms)"
    by simp_all
  have b: "idc c + 1 < 2 ^ 32" using f(2) assms(2) by (simp add: makeInstrument_def)
  have "ran (active (makeInstrument base)) = {}" by (simp add: makeInstrument_def ran_def)
  with f(3) have s: "sounding ms = ran (active c)" by (simp add: sounding_def)
  have n: "idc c + 1 \<notin> set (on_ids ms)" using f(4) by fastforce
  show ?thesis
    using noteOn_eq [OF b, of midi vel] n ctl_inv_fresh [OF f(1)] f(5) s f(1)
    by (simp add: ctl_inv_def)
qed


theorem control_noteOn_witness:
  "length [CallOn 60 None, CallOn 64 (Some 2), CallSet (Some 12) None None,
           CallOn 60 (Some (1 / 2)), CallOff 64] + 2 < (2::nat) ^ 32
   \<and> snd (calls (makeInstrument 60)
         [CallOn 60 None, CallOn 64 (Some 2), CallSet (Some 12) None None,
          CallOn 60 (Some (1 / 2)), CallOff 64])
       = [NoteOn (Some 2) (Some (2 powr 0)) (Some (9 / 10)),
          NoteOn (Some 3) (Some (2 powr (4 / 12))) (Some 1),
          SetParams (Some 0) (Some 0),
          NoteOff (Some 2),
          NoteOn (Some 4) (Some (2 powr (12 / 12))) (Some (1 / 2)),
          NoteOff (Some 3)]
   \<and> snd (noteOn (fst (calls (makeInstrument 60)
         [CallOn 60 None, CallOn 64 (Some 2), CallSet (Some 12) None None,
          CallOn 60 (Some (1 / 2)), CallOff 64])) 60 (Some 3))
       = [NoteOff (Some 4), NoteOn (Some 5) (Some (2 powr (12 / 12))) (Some 1)]
   \<and> sounding (snd (calls (makeInstrument 60)
         [CallOn 60 None, CallOn 64 (Some 2), CallSet (Some 12) None None,
          CallOn 60 (Some (1 / 2)), CallOff 64]))
       = ran (active (fst (calls (makeInstrument 60)
         [CallOn 60 None, CallOn 64 (Some 2), CallSet (Some 12) None None,
          CallOn 60 (Some (1 / 2)), CallOff 64])))"
proof -
  define cs where "cs = [CallOn 60 None, CallOn 64 (Some 2), CallSet (Some 12) None None,
           CallOn 60 (Some (1 / 2)), CallOff 64]"
  define c where "c = fst (calls (makeInstrument 60) cs)"
  define ms where "ms = snd (calls (makeInstrument 60) cs)"
  have h1: "calls (makeInstrument 60) cs = (c, ms)" by (simp add: c_def ms_def)
  have h2: "length cs + 2 < 2 ^ 32" by (simp add: cs_def)
  have m: "ms = [NoteOn (Some 2) (Some (2 powr 0)) (Some (9 / 10)),
          NoteOn (Some 3) (Some (2 powr (4 / 12))) (Some 1),
          SetParams (Some 0) (Some 0),
          NoteOff (Some 2),
          NoteOn (Some 4) (Some (2 powr (12 / 12))) (Some (1 / 2)),
          NoteOff (Some 3)]"
    by (simp add: ms_def cs_def makeInstrument_def noteOn_def noteOff_def setParams_def
        idGen_def midiToPlaybackRate_def clamp_def Let_def)
  have st: "idc c = 4" "active c 60 = Some 4" "baseNote c = 60" "transpose c = 12"
    by (simp_all add: c_def cs_def makeInstrument_def noteOn_def noteOff_def setParams_def
        idGen_def midiToPlaybackRate_def clamp_def Let_def)
  from control_noteOn [OF h1 h2, of 60 "Some 3"]
  have n: "snd (noteOn c 60 (Some 3))
       = [NoteOff (Some 4), NoteOn (Some 5) (Some (2 powr (12 / 12))) (Some 1)]"
    and s: "sounding ms = ran (active c)"
    by (simp_all add: st clamp_def)
  show ?thesis
    using h2 m n s unfolding c_def ms_def cs_def by simp
qed

subsection \<open>The generator\<close>

text \<open>
  The generator is touched by nothing but \<open>scheduleGrainForVoice\<close>, which advances it
  by two xorshift steps (one \<open>next\<close>, one \<open>norm\<close>); no message reseeds it.
\<close>

lemma constructor_rng: "rng constructor = 123456"
  by (simp add: constructor_def)

lemma handleMessage_rng: "rng (handleMessage p m) = rng p"
  by (cases m) (simp_all add: Let_def split: list.splits option.splits)

lemma rng_norm_fst: "fst (rng_norm s) = rng_step s"
  by (simp add: rng_norm_def rng_next_def Let_def)

lemma rng_next_fst: "fst (rng_next s) = rng_step s"
  by (simp add: rng_next_def Let_def)

lemma scheduleGrainForVoice_rng:
  "0 < plength p \<Longrightarrow>
   rng (fst (scheduleGrainForVoice p v gs ov js)) = (rng_step ^^ 2) (rng p)"
  by (simp add: scheduleGrainForVoice_def Let_def split_def rng_norm_fst rng_next_fst
      numeral_2_eq_2)

lemma schedule_loop_rng:
  "schedule_loop p v gs ov js = Some (p', v') \<Longrightarrow> \<exists>j. rng p' = (rng_step ^^ (2 * j)) (rng p)"
proof (induction p v gs ov js rule: schedule_loop.induct)
  case (1 p v gs ov js)
  show ?case
  proof (cases "nextGrainAt v \<le> vtime v + 1 / 1000000")
    case True
    with "1.prems" have np: "\<not> plength p \<le> 0"
      by (subst (asm) schedule_loop.simps) (auto split: if_splits)
    with "1.prems" True have
      "schedule_loop (fst (scheduleGrainForVoice p v gs ov js))
         (snd (scheduleGrainForVoice p v gs ov js)) gs ov js = Some (p', v')"
      by (subst (asm) schedule_loop.simps) simp
    from "1.IH" [OF True np this]
    obtain j where "rng p' = (rng_step ^^ (2 * j)) (rng (fst (scheduleGrainForVoice p v gs ov js)))"
      by blast
    also have "rng (fst (scheduleGrainForVoice p v gs ov js)) = (rng_step ^^ 2) (rng p)"
      using np by (intro scheduleGrainForVoice_rng) simp
    finally have "rng p' = (rng_step ^^ (2 * j)) ((rng_step ^^ 2) (rng p))" .
    also have "\<dots> = (rng_step ^^ (2 * j + 2)) (rng p)"
      by (simp only: funpow_add o_apply)
    also have "2 * j + 2 = 2 * (j + 1)" by simp
    finally show ?thesis by blast
  next
    case False
    with "1.prems" have "p' = p"
      by (subst (asm) schedule_loop.simps) auto
    then have "rng p' = (rng_step ^^ (2 * 0)) (rng p)" by simp
    then show ?thesis by blast
  qed
qed

lemma schedule_voice_rng:
  "schedule_voice p v gs ov js = Some (p', v') \<Longrightarrow> \<exists>j. rng p' = (rng_step ^^ (2 * j)) (rng p)"
proof (cases "nextGrainAt v \<le> vtime v + 1 / 1000000")
  case True
  assume "schedule_voice p v gs ov js = Some (p', v')"
  with True have "schedule_loop p (if vtime v = 0 then v\<lparr>nextGrainAt := 0\<rparr> else v) gs ov js
      = Some (p', v')"
    by (simp add: schedule_voice_def)
  then show ?thesis by (rule schedule_loop_rng)
next
  case False
  assume "schedule_voice p v gs ov js = Some (p', v')"
  with False have "p' = p" by (simp add: schedule_voice_def)
  then have "rng p' = (rng_step ^^ (2 * 0)) (rng p)" by simp
  then show ?thesis by blast
qed

lemma schedule_all_rng:
  "schedule_all p vs gs ov js = Some (p', vs') \<Longrightarrow> \<exists>j. rng p' = (rng_step ^^ (2 * j)) (rng p)"
proof (induction vs arbitrary: p vs')
  case Nil
  then have "rng p' = (rng_step ^^ (2 * 0)) (rng p)" by simp
  then show ?case by blast
next
  case (Cons v vs)
  from Cons.prems obtain p1 v1 vs2 where
    a: "schedule_voice p v gs ov js = Some (p1, v1)" and
    b: "schedule_all p1 vs gs ov js = Some (p', vs2)"
    by (auto split: option.splits)
  from schedule_voice_rng [OF a] obtain i where i: "rng p1 = (rng_step ^^ (2 * i)) (rng p)"
    by blast
  from Cons.IH [OF b] obtain j where j: "rng p' = (rng_step ^^ (2 * j)) (rng p1)" by blast
  have "rng p' = (rng_step ^^ (2 * j)) ((rng_step ^^ (2 * i)) (rng p))"
    unfolding j i ..
  also have "\<dots> = (rng_step ^^ (2 * j + 2 * i)) (rng p)"
    by (simp only: funpow_add o_apply)
  also have "2 * j + 2 * i = 2 * (j + i)" by simp
  finally show ?case by blast
qed

lemma sample_tick_rng: "rng (fst (sample_tick sr p)) = rng p"
  by (simp add: sample_tick_proj)

lemma render_rng: "rng (fst (render n sr p)) = rng p"
  by (induction n arbitrary: p) (simp_all add: render_Suc sample_tick_rng del: render.simps(2))

lemma render_lengths:
  "length (fst (snd (render n sr p))) = n \<and> length (snd (snd (render n sr p))) = n"
  by (induction n arbitrary: p) (simp_all add: render_Suc del: render.simps(2))

lemma process_rng:
  assumes "process sr p prm q = Some r"
  shows "(\<exists>j. rng (state r) = (rng_step ^^ (2 * j)) (rng p))
     \<and> length (outL r) = q \<and> length (outR r) = q"
proof (cases "plength p \<le> 0 \<or> length (bufL p) = 0")
  case True
  with assms have "state r = p" "outL r = replicate q (Some 0)" "outR r = replicate q (Some 0)"
    by (auto simp: process_def)
  moreover have "rng p = (rng_step ^^ (2 * 0)) (rng p)" by simp
  ultimately show ?thesis by (metis length_replicate)
next
  case False
  with assms obtain p1 vs1 where
    s: "schedule_all p (voices p) (grainSize prm) (clamp (overlap prm) 0 0.95)
          (clamp (jitter prm) 0 0.02) = Some (p1, vs1)"
    by (auto simp: process_def Let_def split: option.splits)
  from False have pl: "0 < plength p" "bufL p \<noteq> []" by auto
  from process_loaded [OF pl s, of sr q] assms
  have r: "rng (state r) = rng (fst (render q sr (p1\<lparr>voices := vs1\<rparr>)))"
    "outL r = fst (snd (render q sr (p1\<lparr>voices := vs1\<rparr>)))"
    "outR r = snd (snd (render q sr (p1\<lparr>voices := vs1\<rparr>)))"
    by auto
  from schedule_all_rng [OF s] obtain j where "rng p1 = (rng_step ^^ (2 * j)) (rng p)" by blast
  then have "rng (state r) = (rng_step ^^ (2 * j)) (rng p)"
    unfolding r(1) render_rng by simp
  then show ?thesis unfolding r(2,3) using render_lengths by blast
qed


lemma trace_run:
  "\<exists>bs p' j. trace sr p evs = Some bs \<and> run sr p evs = Some p'
      \<and> rng p' = (rng_step ^^ (2 * j)) (rng p)
      \<and> map (\<lambda>b. (length (fst b), length (snd b))) bs = map (\<lambda>q. (q, q)) (block_sizes evs)"
proof (induction evs arbitrary: p)
  case Nil
  have "rng p = (rng_step ^^ (2 * 0)) (rng p)" by simp
  then show ?case by (intro exI [of _ "[]"] exI [of _ p] exI [of _ 0]) simp
next
  case (Cons e evs)
  show ?case
  proof (cases e)
    case (Msg m)
    from Cons.IH [of "handleMessage p m"] show ?thesis
      by (simp add: Msg handleMessage_rng)
  next
    case (Block prm q)
    obtain r where r: "process sr p prm q = Some r" using process_returns by blast
    from process_rng [OF r] obtain i where i: "rng (state r) = (rng_step ^^ (2 * i)) (rng p)"
      and l: "length (outL r) = q" "length (outR r) = q" by blast
    from Cons.IH [of "state r"] obtain bs p' j where
      t: "trace sr (state r) evs = Some bs" "run sr (state r) evs = Some p'"
      "rng p' = (rng_step ^^ (2 * j)) (rng (state r))"
      "map (\<lambda>b. (length (fst b), length (snd b))) bs = map (\<lambda>q. (q, q)) (block_sizes evs)"
      by blast
    have "rng p' = (rng_step ^^ (2 * j)) ((rng_step ^^ (2 * i)) (rng p))"
      unfolding t(3) i ..
    also have "\<dots> = (rng_step ^^ (2 * j + 2 * i)) (rng p)"
      by (simp only: funpow_add o_apply)
    also have "2 * j + 2 * i = 2 * (j + i)" by simp
    finally have g: "rng p' = (rng_step ^^ (2 * (j + i))) (rng p)" .
    show ?thesis
      by (intro exI [of _ "(outL r, outR r) # bs"] exI [of _ p'] exI [of _ "j + i"])
         (simp add: Block r t(1,2,4) l g)
  qed
qed

text \<open>
  So every run returns its output stream, with one block of the requested size per
  render call and channel, and leaves the generator an even number of xorshift steps
  from its state at the start; a processor fresh from the constructor starts at the
  seed 123456.

  C10 says that two runs on the same messages, parameter values and block sizes give
  bit-identical output. Over these definitions that is not a statement about the
  code: a run is the value of \<open>trace\<close> at its sample rate and events, and a function
  takes one value at one argument whatever its body does. What could tell two runs of
  the JavaScript apart is not in the embedding: the rounding of its floating-point
  arithmetic (numbers are exact reals here, and \<open>Math.cos\<close>, \<open>Math.exp\<close> and
  \<open>Math.pow\<close> are implementation-approximated), and the moment at which the host
  delivers a message between two render calls.
\<close>

end
